theory Spec2Isabelle
  imports Main "HOL-Library.Sublist"
begin

section \<open>Xen message channels (\<^verbatim>\<open>python/xen/channel.py\<close>)\<close>

text \<open>
  A shallow embedding of the class \<^verbatim>\<open>Channel\<close> and of the in-memory transport
  \<^verbatim>\<open>FakeSocket\<close> of the same file.  Python values are modelled as follows.
  \<^item> \<^verbatim>\<open>bytes\<close> is a list of 8-bit characters; the integer value of a byte is
    \<open>of_char\<close>.
  \<^item> \<^verbatim>\<open>str\<close> is a list of Unicode code points (natural numbers); \<open>str_of\<close> turns
    an Isabelle string literal into such a text.
  \<^item> \<^verbatim>\<open>int\<close> is the unbounded type \<open>int\<close>; conversions between integers and
    decimal text have no length limit.
  \<^item> An exception is a value of the type \<open>error\<close>; a method returns a pair of its
    outcome (\<open>Inl\<close> the exception raised, \<open>Inr\<close> the value returned) and the state
    of the object when it leaves.
\<close>

subsection \<open>Values and exceptions\<close>

type_synonym bytes = "char list"
type_synonym str = "nat list"

definition str_of :: "string \<Rightarrow> str" where
  "str_of s = map of_char s"

datatype error =
    BadMessage string
  | TypeError string
  | ValueError string
  | UnicodeEncodeError
  | UnicodeDecodeError
  | LookupError string
  | AttributeError string

text \<open>Arguments of the public methods are dynamically typed.\<close>

datatype pyval =
    PyStr str
  | PyInt int
  | PyBool bool
  | PyBytes bytes
  | PyNone

text \<open>\<^verbatim>\<open>isinstance(v, str)\<close> and \<^verbatim>\<open>isinstance(v, int)\<close>; \<^verbatim>\<open>bool\<close> is a subclass of
  \<^verbatim>\<open>int\<close>.\<close>

fun isinstance_str :: "pyval \<Rightarrow> bool" where
  "isinstance_str (PyStr s) = True"
| "isinstance_str v = False"

fun isinstance_int :: "pyval \<Rightarrow> bool" where
  "isinstance_int (PyInt n) = True"
| "isinstance_int (PyBool b) = True"
| "isinstance_int v = False"

subsection \<open>Decimal text of integers: \<^verbatim>\<open>str(n)\<close> and \<^verbatim>\<open>int(s, base=10)\<close>\<close>

fun digits :: "nat \<Rightarrow> str" where
  "digits n = (if n < 10 then [48 + n] else digits (n div 10) @ [48 + n mod 10])"

declare digits.simps [simp del]

definition str_int :: "int \<Rightarrow> str" where
  "str_int n = (if n < 0 then 45 # digits (nat (- n)) else digits (nat n))"

text \<open>\<^verbatim>\<open>str(v)\<close> for the values that pass the checks of \<^verbatim>\<open>send_format\<close>, the only
  ones it is applied to.\<close>

fun py_str :: "pyval \<Rightarrow> str" where
  "py_str (PyInt n) = str_int n"
| "py_str (PyBool b) = (if b then str_of ''True'' else str_of ''False'')"
| "py_str (PyStr s) = s"

text \<open>
  \<^verbatim>\<open>int(s, base=10)\<close>: white space is stripped on both sides, one sign is allowed,
  then at least one digit, with single underscores allowed between digits.  A
  non-ASCII white-space character counts as a space; non-ASCII decimal digits are
  not modelled and are rejected here.
\<close>

definition is_space :: "nat \<Rightarrow> bool" where
  "is_space c = ((9 \<le> c \<and> c \<le> 13) \<or> c = 32 \<or> c = 133 \<or> c = 160 \<or> c = 5760
     \<or> (8192 \<le> c \<and> c \<le> 8202) \<or> c = 8232 \<or> c = 8233 \<or> c = 8239 \<or> c = 8287
     \<or> c = 12288)"

definition is_digit :: "nat \<Rightarrow> bool" where
  "is_digit c = (48 \<le> c \<and> c \<le> 57)"

text \<open>The digits of the literal: \<open>prev\<close> tells whether the previous character was
  a digit (an underscore must stand between two digits).\<close>

fun int_digits :: "bool \<Rightarrow> nat \<Rightarrow> str \<Rightarrow> nat option" where
  "int_digits prev acc [] = (if prev then Some acc else None)"
| "int_digits prev acc (c # cs) =
     (if is_digit c then int_digits True (10 * acc + (c - 48)) cs
      else if c = 95 \<and> prev \<and> cs \<noteq> [] then int_digits False acc cs
      else None)"

definition strip :: "str \<Rightarrow> str" where
  "strip s = rev (dropWhile is_space (rev (dropWhile is_space s)))"

definition py_int :: "str \<Rightarrow> error + int" where
  "py_int s =
     (let t = strip s;
          (neg, d) = (case t of
                        c # cs \<Rightarrow> if c = 45 then (True, cs)
                                  else if c = 43 then (False, cs) else (False, t)
                      | [] \<Rightarrow> (False, t))
      in case int_digits False 0 d of
           None \<Rightarrow> Inl (ValueError ''invalid literal for int() with base 10'')
         | Some n \<Rightarrow> Inr (if neg then - int n else int n))"

subsection \<open>Text codecs\<close>

text \<open>
  \<^verbatim>\<open>str.encode\<close> and \<^verbatim>\<open>bytes.decode\<close> for the codec names \<^verbatim>\<open>utf-8\<close> (the module's
  default \<^verbatim>\<open>ENCODING\<close>) and \<^verbatim>\<open>ascii\<close> (used for the header).  Any other name is
  treated as unknown to the codec registry, which is what Python does with the
  name \<^verbatim>\<open>binary\<close> mentioned in the constructor's comment.
\<close>

definition ENCODING :: string where
  "ENCODING = ''utf-8''"

definition surrogate :: "nat \<Rightarrow> bool" where
  "surrogate c = (55296 \<le> c \<and> c \<le> 57343)"

definition scalar :: "nat \<Rightarrow> bool" where
  "scalar c = (c \<le> 1114111 \<and> \<not> surrogate c)"

definition utf8_char :: "nat \<Rightarrow> bytes" where
  "utf8_char c =
     (if c < 128 then [char_of c]
      else if c < 2048 then [char_of (192 + c div 64), char_of (128 + c mod 64)]
      else if c < 65536 then
        [char_of (224 + c div 4096), char_of (128 + c div 64 mod 64),
         char_of (128 + c mod 64)]
      else
        [char_of (240 + c div 262144), char_of (128 + c div 4096 mod 64),
         char_of (128 + c div 64 mod 64), char_of (128 + c mod 64)])"

definition utf8_encode :: "str \<Rightarrow> error + bytes" where
  "utf8_encode s =
     (if list_all scalar s then Inr (concat (map utf8_char s))
      else Inl UnicodeEncodeError)"

definition continuation :: "char \<Rightarrow> bool" where
  "continuation b = (128 \<le> (of_char b :: nat) \<and> (of_char b :: nat) \<le> 191)"

definition cons_text :: "nat \<Rightarrow> error + str \<Rightarrow> error + str" where
  "cons_text c r = (case r of Inl e \<Rightarrow> Inl e | Inr s \<Rightarrow> Inr (c # s))"

fun utf8_decode :: "bytes \<Rightarrow> error + str" where
  "utf8_decode [] = Inr []"
| "utf8_decode (b0 # bs) =
     (if (of_char b0 :: nat) < 128 then cons_text (of_char b0) (utf8_decode bs)
      else if 194 \<le> (of_char b0 :: nat) \<and> (of_char b0 :: nat) \<le> 223 then
        (case bs of
           b1 # r \<Rightarrow>
             if continuation b1
             then cons_text ((of_char b0 - 192) * 64 + (of_char b1 - 128)) (utf8_decode r)
             else Inl UnicodeDecodeError
         | _ \<Rightarrow> Inl UnicodeDecodeError)
      else if 224 \<le> (of_char b0 :: nat) \<and> (of_char b0 :: nat) \<le> 239 then
        (case bs of
           b1 # b2 # r \<Rightarrow>
             if continuation b1 \<and> continuation b2
                \<and> 2048 \<le> (of_char b0 - 224) * 4096 + (of_char b1 - 128) * 64 + (of_char b2 - 128 :: nat)
                \<and> \<not> surrogate ((of_char b0 - 224) * 4096 + (of_char b1 - 128) * 64 + (of_char b2 - 128))
             then cons_text ((of_char b0 - 224) * 4096 + (of_char b1 - 128) * 64 + (of_char b2 - 128))
                    (utf8_decode r)
             else Inl UnicodeDecodeError
         | _ \<Rightarrow> Inl UnicodeDecodeError)
      else if 240 \<le> (of_char b0 :: nat) \<and> (of_char b0 :: nat) \<le> 244 then
        (case bs of
           b1 # b2 # b3 # r \<Rightarrow>
             if continuation b1 \<and> continuation b2 \<and> continuation b3
                \<and> 65536 \<le> (of_char b0 - 240) * 262144 + (of_char b1 - 128) * 4096
                          + (of_char b2 - 128) * 64 + (of_char b3 - 128 :: nat)
                \<and> (of_char b0 - 240) * 262144 + (of_char b1 - 128) * 4096
                    + (of_char b2 - 128) * 64 + (of_char b3 - 128 :: nat) \<le> 1114111
             then cons_text ((of_char b0 - 240) * 262144 + (of_char b1 - 128) * 4096
                             + (of_char b2 - 128) * 64 + (of_char b3 - 128))
                    (utf8_decode r)
             else Inl UnicodeDecodeError
         | _ \<Rightarrow> Inl UnicodeDecodeError)
      else Inl UnicodeDecodeError)"

definition ascii_encode :: "str \<Rightarrow> error + bytes" where
  "ascii_encode s =
     (if list_all (\<lambda>c. c < 128) s then Inr (map char_of s) else Inl UnicodeEncodeError)"

definition ascii_decode :: "bytes \<Rightarrow> error + str" where
  "ascii_decode b =
     (if list_all (\<lambda>c. (of_char c :: nat) < 128) b then Inr (map of_char b)
      else Inl UnicodeDecodeError)"

definition encode :: "string \<Rightarrow> str \<Rightarrow> error + bytes" where
  "encode name s =
     (if name = ''utf-8'' then utf8_encode s
      else if name = ''ascii'' then ascii_encode s
      else Inl (LookupError name))"

definition decode :: "string \<Rightarrow> bytes \<Rightarrow> error + str" where
  "decode name b =
     (if name = ''utf-8'' then utf8_decode b
      else if name = ''ascii'' then ascii_decode b
      else Inl (LookupError name))"

subsection \<open>The transport: class \<^verbatim>\<open>FakeSocket\<close>\<close>

text \<open>The only field of a \<^verbatim>\<open>FakeSocket\<close> is its byte buffer \<^verbatim>\<open>_buf\<close>.  The channel
  passes \<^verbatim>\<open>bytes\<close> to \<^verbatim>\<open>send\<close>, so the type check of \<^verbatim>\<open>send\<close> cannot fail.\<close>

type_synonym fake_socket = bytes

definition fs_send :: "fake_socket \<Rightarrow> bytes \<Rightarrow> fake_socket" where
  "fs_send sock b = sock @ b"

definition fs_recv :: "fake_socket \<Rightarrow> int \<Rightarrow> bytes \<times> fake_socket" where
  "fs_recv sock n = (if n < 0 then ([], sock) else (take (nat n) sock, drop (nat n) sock))"

definition fs_flush :: "fake_socket \<Rightarrow> fake_socket" where
  "fs_flush sock = sock"

subsection \<open>The class \<^verbatim>\<open>Channel\<close>\<close>

type_synonym message = "str \<times> int \<times> str"

text \<open>The fields \<^verbatim>\<open>_cnt\<close>, \<^verbatim>\<open>_enc\<close>, \<^verbatim>\<open>_io\<close>, \<^verbatim>\<open>_buf\<close>, \<^verbatim>\<open>_off\<close>, \<^verbatim>\<open>_siz\<close> and
  \<^verbatim>\<open>_jobs\<close>.  The offset is never negative (it starts at 0, grows, and is reduced
  by a value it has reached before), so it is a natural number.  The callback
  \<^verbatim>\<open>_cbk\<close> is never called by the class and is left out.\<close>

record channel =
  cnt :: int
  enc :: string
  io :: fake_socket
  buf :: bytes
  off :: nat
  siz :: int
  jobs :: "message list"

type_synonym 'a outcome = "(error + 'a) \<times> channel"

definition init :: "fake_socket \<Rightarrow> string \<Rightarrow> channel" where
  "init sock encoding =
     \<lparr>cnt = 0, enc = encoding, io = sock, buf = [], off = 0, siz = - 1, jobs = []\<rparr>"

definition get_encoding :: "channel \<Rightarrow> string" where
  "get_encoding self = enc self"

definition set_encoding :: "channel \<Rightarrow> string option \<Rightarrow> channel" where
  "set_encoding self e = self\<lparr>enc := (case e of None \<Rightarrow> ENCODING | Some n \<Rightarrow> n)\<rparr>"

subsubsection \<open>Sending\<close>

definition send_format :: "channel \<Rightarrow> pyval \<Rightarrow> pyval \<Rightarrow> pyval \<Rightarrow> unit outcome" where
  "send_format self cat num msg =
     (if \<not> isinstance_str cat then (Inl (TypeError ''category must be a string''), self)
      else if \<not> isinstance_int num then
        (Inl (TypeError ''serial number must be an integer''), self)
      else if \<not> isinstance_str msg then (Inl (TypeError ''message must be a string''), self)
      else case encode (enc self) (py_str cat @ [58] @ py_str num @ [58] @ py_str msg) of
          Inl e \<Rightarrow> (Inl e, self)
        | Inr b \<Rightarrow>
            (case encode ''ascii'' ([64] @ str_int (int (length b)) @ [58]) of
               Inl e \<Rightarrow> (Inl e, self)
             | Inr h \<Rightarrow> (Inr (), self\<lparr>io := fs_flush (fs_send (fs_send (io self) h) b)\<rparr>)))"

definition send_serial :: "channel \<Rightarrow> pyval \<Rightarrow> pyval \<Rightarrow> int outcome" where
  "send_serial self cat msg =
     (let self1 = self\<lparr>cnt := cnt self + 1\<rparr> in
      case send_format self1 cat (PyInt (cnt self1)) msg of
        (Inl e, self2) \<Rightarrow> (Inl e, self2)
      | (Inr u, self2) \<Rightarrow> (Inr (cnt self2), self2))"

definition send_command :: "channel \<Rightarrow> pyval \<Rightarrow> int outcome" where
  "send_command self cmd = send_serial self (PyStr (str_of ''CMD'')) cmd"

definition send_event :: "channel \<Rightarrow> pyval \<Rightarrow> int outcome" where
  "send_event self evt = send_serial self (PyStr (str_of ''EVT'')) evt"

definition send_result :: "channel \<Rightarrow> pyval \<Rightarrow> pyval \<Rightarrow> unit outcome" where
  "send_result self num val = send_format self (PyStr (str_of ''OK'')) num val"

definition send_error :: "channel \<Rightarrow> pyval \<Rightarrow> pyval \<Rightarrow> unit outcome" where
  "send_error self num msg = send_format self (PyStr (str_of ''ERR'')) num msg"

subsubsection \<open>The job queue\<close>

definition push_job :: "channel \<Rightarrow> message \<Rightarrow> channel" where
  "push_job self job = self\<lparr>jobs := jobs self @ [job]\<rparr>"

definition pop_job :: "channel \<Rightarrow> message option \<times> channel" where
  "pop_job self =
     (if length (jobs self) < 1 then (None, self)
      else (Some (hd (jobs self)), self\<lparr>jobs := tl (jobs self)\<rparr>))"

definition more_jobs :: "channel \<Rightarrow> bool" where
  "more_jobs self = (length (jobs self) \<ge> 1)"

subsubsection \<open>Receiving: collecting the bytes\<close>

text \<open>The first loop of \<^verbatim>\<open>_receive\<close>: chunks of at most 1024 bytes are read until a
  chunk is shorter than that.\<close>

function collect :: "channel \<Rightarrow> channel" where
  "collect self =
     (let b = fst (fs_recv (io self) 1024);
          self1 = self\<lparr>io := snd (fs_recv (io self) 1024)\<rparr>;
          self2 = (if length b > 0
                   then (if length (buf self1) > 0 then self1\<lparr>buf := buf self1 @ b\<rparr>
                         else self1\<lparr>buf := b\<rparr>)
                   else self1)
      in if length b < 1024 then self2 else collect self2)"
  by pat_completeness auto
termination
  by (relation "measure (\<lambda>self. length (io self))") (auto simp: fs_recv_def)

declare collect.simps [simp del]

subsubsection \<open>Receiving: the header\<close>

definition ZERO :: nat where [simp]: "ZERO = 48"
definition NINE :: nat where [simp]: "NINE = 57"
definition SEPARATOR :: nat where [simp]: "SEPARATOR = 58"
definition BEGIN :: nat where [simp]: "BEGIN = 64"

text \<open>
  The \<^verbatim>\<open>for\<close> loop over \<^verbatim>\<open>range(self._off + 1, bufsiz)\<close>: \<open>scan_size o i size bs\<close>
  is the loop at index \<open>i\<close> with the bytes \<open>bs\<close> from \<open>i\<close> on still to read and the
  header at offset \<open>o\<close>.  It raises, or ends at the separator with the new offset
  and the size (\<open>Some\<close>), or runs out of bytes (\<open>None\<close>).
\<close>

fun scan_size :: "nat \<Rightarrow> nat \<Rightarrow> nat \<Rightarrow> bytes \<Rightarrow> error + (nat \<times> nat) option" where
  "scan_size o' i size' [] = Inr None"
| "scan_size o' i size' (byte # bs) =
     (if ZERO \<le> of_char byte \<and> of_char byte \<le> NINE
      then scan_size o' (i + 1) (10 * size' + (of_char byte - ZERO)) bs
      else if of_char byte = SEPARATOR then
        (if i \<le> o' + 1 then Inl (BadMessage ''No size specified'')
         else Inr (Some (i + 1, size')))
      else Inl (BadMessage ''Expecting digits or separator''))"

text \<open>The bytes that the loop takes for digits.\<close>

definition digit_byte :: "char \<Rightarrow> bool" where
  "digit_byte b = (ZERO \<le> of_char b \<and> (of_char b :: nat) \<le> NINE)"

datatype flow = Next | Break

text \<open>Lines 210 to 235: \<open>Break\<close> is the \<^verbatim>\<open>break\<close> of line 235, \<open>Next\<close> goes on to
  line 237.\<close>

definition header :: "channel \<Rightarrow> flow outcome" where
  "header self =
     (let bufsiz = length (buf self) in
      if siz self < 0 then
        (if bufsiz > off self then
           (if of_char (buf self ! off self) \<noteq> BEGIN
            then (Inl (BadMessage ''Missing begin message marker''), self)
            else case scan_size (off self) (off self + 1) 0 (drop (off self + 1) (buf self)) of
                Inl e \<Rightarrow> (Inl e, self)
              | Inr None \<Rightarrow> (Inr Break, self)
              | Inr (Some (i, size')) \<Rightarrow> (Inr Next, self\<lparr>off := i, siz := int size'\<rparr>))
         else (Inr Break, self))
      else (Inr Next, self))"

subsubsection \<open>Receiving: the contents\<close>

text \<open>\<^verbatim>\<open>str.find(sub, start)\<close> for a substring of one character.\<close>

fun index_of :: "nat \<Rightarrow> str \<Rightarrow> nat option" where
  "index_of c [] = None"
| "index_of c (x # xs) = (if x = c then Some 0 else map_option Suc (index_of c xs))"

definition find' :: "str \<Rightarrow> nat \<Rightarrow> nat \<Rightarrow> int" where
  "find' s c start =
     (case index_of c (drop start s) of None \<Rightarrow> - 1 | Some k \<Rightarrow> int (start + k))"

text \<open>Lines 255 to 261: the pieces of the message.\<close>

definition pieces :: "str \<Rightarrow> error + message" where
  "pieces msg =
     (let i1 = find' msg 58 0;
          i2 = (if i1 \<ge> 0 then find' msg 58 (nat (i1 + 1)) else - 1)
      in if i2 < i1 + 2 then Inl (BadMessage ''Expecting CAT:NUM:MSG'')
         else case py_int (take (nat i2 - nat (i1 + 1)) (drop (nat (i1 + 1)) msg)) of
             Inl e \<Rightarrow> Inl e
           | Inr num \<Rightarrow> Inr (take (nat i1) msg, num, drop (nat (i2 + 1)) msg))"

text \<open>Lines 237 to 264, with the local variable \<^verbatim>\<open>consumed\<close>.  The local
  \<^verbatim>\<open>bufsiz\<close> is the length of the buffer, which the loop never changes.\<close>

definition contents :: "channel \<Rightarrow> nat \<Rightarrow> (error + flow) \<times> channel \<times> nat" where
  "contents self consumed =
     (if int (length (buf self)) < int (off self) + siz self then (Inr Break, self, consumed)
      else case (if siz self > 0
                 then decode (enc self) (take (nat (siz self)) (drop (off self) (buf self)))
                 else Inr []) of
          Inl e \<Rightarrow> (Inl e, self, consumed)
        | Inr msg \<Rightarrow>
            (let self1 = self\<lparr>off := off self + nat (siz self), siz := - 1\<rparr> in
             case pieces msg of
               Inl e \<Rightarrow> (Inl e, self1, off self1)
             | Inr job \<Rightarrow> (Inr Next, push_job self1 job, off self1)))"

text \<open>One turn of the \<^verbatim>\<open>while True\<close> loop of line 209.\<close>

definition turn :: "channel \<Rightarrow> nat \<Rightarrow> (error + flow) \<times> channel \<times> nat" where
  "turn self consumed =
     (case header self of
        (Inl e, self1) \<Rightarrow> (Inl e, self1, consumed)
      | (Inr Break, self1) \<Rightarrow> (Inr Break, self1, consumed)
      | (Inr Next, self1) \<Rightarrow> contents self1 consumed)"

subsubsection \<open>Receiving: the loop and the method \<^verbatim>\<open>_receive\<close>\<close>

function parse :: "channel \<Rightarrow> nat \<Rightarrow> (error + unit) \<times> channel \<times> nat" where
  "parse self consumed =
     (case turn self consumed of
        (Inl e, self1, consumed1) \<Rightarrow> (Inl e, self1, consumed1)
      | (Inr Break, self1, consumed1) \<Rightarrow> (Inr (), self1, consumed1)
      | (Inr Next, self1, consumed1) \<Rightarrow> parse self1 consumed1)"
  by pat_completeness auto
termination
proof -
  have adv: "scan_size o' i sz bs = Inr (Some (i', s')) \<Longrightarrow> i < i'" for o' i sz bs i' s'
  proof (induction bs arbitrary: i sz)
    case Nil
    then show ?case by simp
  next
    case (Cons b bs)
    show ?case
    proof (cases "ZERO \<le> of_char b \<and> of_char b \<le> NINE")
      case True
      with Cons.prems
      have "scan_size o' (i + 1) (10 * sz + (of_char b - ZERO)) bs = Inr (Some (i', s'))"
        by simp
      from Cons.IH [OF this] show ?thesis by simp
    next
      case False
      with Cons.prems show ?thesis by (auto split: if_splits)
    qed
  qed
  show ?thesis
    by (relation "measure (\<lambda>(self, consumed).
          2 * (length (buf self) - off self) + (if siz self < 0 then 0 else 1))")
      (auto simp: turn_def header_def contents_def push_job_def Let_def
         split: if_splits sum.splits option.splits flow.splits prod.splits dest!: adv)
qed

declare parse.simps [simp del]

text \<open>The body of the \<^verbatim>\<open>try\<close> statement, lines 190 to 270.\<close>

definition attempt :: "channel \<Rightarrow> unit outcome" where
  "attempt self =
     (case parse (collect self) 0 of
        (Inl e, self1, consumed) \<Rightarrow> (Inl e, self1)
      | (Inr u, self1, consumed) \<Rightarrow>
          (Inr (), if consumed > 0
                   then self1\<lparr>buf := drop consumed (buf self1), off := off self1 - consumed\<rparr>
                   else self1))"

text \<open>The class \<^verbatim>\<open>Channel\<close> defines no attribute \<^verbatim>\<open>disconnect\<close> and no
  \<^verbatim>\<open>__getattr__\<close>, so evaluating \<^verbatim>\<open>self.disconnect\<close> raises \<^verbatim>\<open>AttributeError\<close>.\<close>

definition disconnect :: "channel \<Rightarrow> unit outcome" where
  "disconnect self = (Inl (AttributeError ''disconnect''), self)"

text \<open>The method \<^verbatim>\<open>_receive\<close> with its handler, lines 272 to 275.\<close>

definition receive :: "channel \<Rightarrow> unit outcome" where
  "receive self =
     (case attempt self of
        (Inr u, self1) \<Rightarrow> (Inr u, self1)
      | (Inl ex, self1) \<Rightarrow>
          (case disconnect self1 of
             (Inl ex', self2) \<Rightarrow> (Inl ex', self2)
           | (Inr u, self2) \<Rightarrow> (Inl ex, self2)))"

subsection \<open>Driving a channel\<close>

text \<open>The peer puts a chunk of bytes on the transport and the receive callback is
  triggered; \<open>feed\<close> does so for a list of chunks and stops at the first exception.\<close>

definition deliver :: "channel \<Rightarrow> bytes \<Rightarrow> unit outcome" where
  "deliver self chunk = receive (self\<lparr>io := fs_send (io self) chunk\<rparr>)"

fun feed :: "channel \<Rightarrow> bytes list \<Rightarrow> unit outcome" where
  "feed self [] = (Inr (), self)"
| "feed self (chunk # chunks) =
     (case deliver self chunk of
        (Inl e, self1) \<Rightarrow> (Inl e, self1)
      | (Inr u, self1) \<Rightarrow> feed self1 chunks)"

text \<open>A caller's requests to a channel, and the serial numbers that the
  auto-numbered sends return to it in the course of a list of requests (an exception
  is caught by the caller, who goes on).\<close>

datatype request =
    Command pyval
  | Event pyval
  | Serial pyval pyval
  | Result pyval pyval
  | Failure pyval pyval
  | Format pyval pyval pyval
  | Receive bytes

fun numbered :: "int outcome \<Rightarrow> int list \<times> channel" where
  "numbered (Inl e, self) = ([], self)"
| "numbered (Inr n, self) = ([n], self)"

fun serve :: "channel \<Rightarrow> request \<Rightarrow> int list \<times> channel" where
  "serve self (Command cmd) = numbered (send_command self cmd)"
| "serve self (Event evt) = numbered (send_event self evt)"
| "serve self (Serial cat msg) = numbered (send_serial self cat msg)"
| "serve self (Result num val) = ([], snd (send_result self num val))"
| "serve self (Failure num msg) = ([], snd (send_error self num msg))"
| "serve self (Format cat num msg) = ([], snd (send_format self cat num msg))"
| "serve self (Receive chunk) = ([], snd (deliver self chunk))"

fun serials :: "channel \<Rightarrow> request list \<Rightarrow> int list" where
  "serials self [] = []"
| "serials self (r # rs) = fst (serve self r) @ serials (snd (serve self r)) rs"

subsection \<open>Notions for the statements\<close>

text \<open>The value of a run of decimal digits, as the header loop and \<^verbatim>\<open>int\<close> accumulate
  it.\<close>

definition decimal :: "nat \<Rightarrow> str \<Rightarrow> nat" where
  "decimal acc ds = foldl (\<lambda>a d. 10 * a + (d - 48)) acc ds"

text \<open>A message that the default codec can encode and whose category holds no
  separator; the text of its contents; the bytes that \<^verbatim>\<open>send_format\<close> writes for it on
  a channel with the default encoding; and the bytes written for a list of messages.\<close>

fun well_formed :: "message \<Rightarrow> bool" where
  "well_formed (cat, num, msg) = (58 \<notin> set cat \<and> list_all scalar cat \<and> list_all scalar msg)"

fun frame :: "message \<Rightarrow> bytes" where
  "frame (cat, num, msg)
   = io (snd (send_format (init [] ENCODING) (PyStr cat) (PyInt num) (PyStr msg)))"

definition wire :: "message list \<Rightarrow> bytes" where
  "wire ms = concat (map frame ms)"

definition body :: "message \<Rightarrow> str" where
  "body m = (case m of (cat, num, msg) \<Rightarrow> cat @ 58 # str_int num @ 58 # msg)"

text \<open>The state of the loop after the frames of \<open>ms\<close>, which start at the offset.\<close>

definition after :: "channel \<Rightarrow> message list \<Rightarrow> channel" where
  "after self ms
   = self\<lparr>off := off self + length (wire ms), siz := - 1, jobs := jobs self @ ms\<rparr>"

text \<open>A channel whose transport and buffer are empty and which awaits a header.\<close>

definition idle :: "channel \<Rightarrow> bool" where
  "idle self = (io self = [] \<and> buf self = [] \<and> off self = 0 \<and> siz self = - 1)"

text \<open>The buffer with further bytes appended (what collecting them does); the
  buffer with its first \<open>k\<close> bytes dropped and the offset rebased (lines 269 and 270);
  and a channel between two calls of \<^verbatim>\<open>_receive\<close>: nothing on the transport, the offset
  within the buffer.\<close>

definition append_buf :: "channel \<Rightarrow> bytes \<Rightarrow> channel" where
  "append_buf self x = self\<lparr>buf := buf self @ x\<rparr>"

definition compact :: "channel \<Rightarrow> nat \<Rightarrow> channel" where
  "compact self k = self\<lparr>buf := drop k (buf self), off := off self - k\<rparr>"

definition steady :: "channel \<Rightarrow> bool" where
  "steady self = (io self = [] \<and> off self \<le> length (buf self))"

section \<open>Properties\<close>

subsection \<open>Collecting the bytes of the transport\<close>

lemma collect_eq: "collect self = self\<lparr>io := [], buf := buf self @ io self\<rparr>"
proof (induction self rule: collect.induct)
  case (1 self)
  show ?case
  proof (cases "length (io self) < 1024")
    case True
    then show ?thesis
      by (subst collect.simps) (simp add: fs_recv_def Let_def)
  next
    case False
    then have len: "length (take 1024 (io self)) = 1024" "io self \<noteq> []" by auto
    show ?thesis
    proof (cases "buf self = []")
      case True
      with "1.IH" [OF refl refl refl] False len show ?thesis
        by (subst collect.simps) (simp add: fs_recv_def Let_def)
    next
      case nonempty: False
      with "1.IH" [OF refl refl refl] False len show ?thesis
        by (subst collect.simps) (simp add: fs_recv_def Let_def)
    qed
  qed
qed

subsection \<open>Sending\<close>

lemmas send_defs =
  send_command_def send_event_def send_result_def send_error_def send_serial_def
  send_format_def encode_def ENCODING_def utf8_encode_def ascii_encode_def utf8_char_def
  scalar_def surrogate_def str_of_def str_int_def fs_send_def fs_flush_def Let_def

text \<open>
  Claim C6, as amended.  On a channel whose serial counter is 0 and whose encoding
  is the default one, \<^verbatim>\<open>send_command("go")\<close> returns 1 and appends exactly the bytes
  \<^verbatim>\<open>@8:CMD:1:go\<close> to the transport: the contents \<^verbatim>\<open>CMD:1:go\<close> has 8 bytes.
\<close>

theorem send_command_go:
  assumes "cnt self = 0" and "enc self = ENCODING"
  shows "send_command self (PyStr (str_of ''go''))
         = (Inr 1, self\<lparr>cnt := 1, io := io self @ ''@8:CMD:1:go''\<rparr>)"
  using assms by (simp add: send_defs digits.simps char_of_def bit_simps)

theorem send_command_go_witness:
  "cnt (init [] ENCODING) = 0 \<and> enc (init [] ENCODING) = ENCODING
   \<and> send_command (init [] ENCODING) (PyStr (str_of ''go''))
       = (Inr 1, (init [] ENCODING)\<lparr>cnt := 1, io := ''@8:CMD:1:go''\<rparr>)"
  using send_command_go [of "init [] ENCODING"] by (simp add: init_def)

text \<open>The bytes of claim C6 as it is stated, \<^verbatim>\<open>@7:CMD:1:go\<close>, are not what a fresh
  channel writes.\<close>

theorem send_command_go_not_7:
  "io (snd (send_command (init [] ENCODING) (PyStr (str_of ''go'')))) \<noteq> ''@7:CMD:1:go''"
  by (simp add: send_defs digits.simps char_of_def bit_simps init_def)

text \<open>
  Claim C8.  When the category is not a string, the serial number is not an integer
  or the message is not a string, \<^verbatim>\<open>send_format\<close> raises a \<^verbatim>\<open>TypeError\<close> and leaves
  the channel as it was; in particular the transport has received no byte.
\<close>

theorem send_format_contract:
  assumes "\<not> isinstance_str cat \<or> \<not> isinstance_int num \<or> \<not> isinstance_str msg"
  shows "(\<exists>reason. send_format self cat num msg = (Inl (TypeError reason), self))
         \<and> io (snd (send_format self cat num msg)) = io self"
  using assms by (auto simp: send_format_def)

theorem send_format_contract_witness:
  "(\<exists>reason. send_format (init [] ENCODING) (PyInt 3) (PyInt 1) (PyStr [])
                 = (Inl (TypeError reason), init [] ENCODING))
   \<and> io (snd (send_format (init [] ENCODING) (PyInt 3) (PyInt 1) (PyStr []))) = []"
  using send_format_contract [of "PyInt 3" "PyInt 1" "PyStr []" "init [] ENCODING"]
  by (simp add: init_def)

subsection \<open>The handler of \<^verbatim>\<open>_receive\<close>\<close>

text \<open>
  Claim C3 at the input \<^verbatim>\<open>x\<close> on a fresh channel.  The byte is not the marker, the
  loop raises \<^verbatim>\<open>BadMessage\<close>, and the handler then fails on \<^verbatim>\<open>self.disconnect()\<close>:
  the caller gets an \<^verbatim>\<open>AttributeError\<close> and nothing has been done to the transport
  but reading it.
\<close>

theorem receive_bad_marker:
  "receive (init ''x'' ENCODING)
   = (Inl (AttributeError ''disconnect''), (init [] ENCODING)\<lparr>buf := ''x''\<rparr>)"
  apply (simp add: receive_def attempt_def collect_eq init_def)
  apply (subst parse.simps)
  apply (simp add: turn_def header_def disconnect_def)
  done

subsection \<open>What the receive loop leaves alone\<close>

lemma header_frame:
  assumes "header self = (r, s1)"
  shows "cnt s1 = cnt self \<and> enc s1 = enc self \<and> io s1 = io self \<and> buf s1 = buf self
         \<and> jobs s1 = jobs self"
  using assms
  by (auto simp: header_def Let_def split: if_splits sum.splits option.splits)

lemma contents_frame:
  assumes "contents self c = (r, s1, c1)"
  shows "cnt s1 = cnt self \<and> enc s1 = enc self \<and> io s1 = io self \<and> buf s1 = buf self"
  using assms
  by (auto simp: contents_def Let_def push_job_def split: if_splits sum.splits)

lemma turn_frame:
  assumes "turn self c = (r, s1, c1)"
  shows "cnt s1 = cnt self \<and> enc s1 = enc self \<and> io s1 = io self \<and> buf s1 = buf self"
proof -
  obtain rh sh where h: "header self = (rh, sh)" by (cases "header self")
  show ?thesis
  proof (cases rh)
    case (Inl e)
    with h assms header_frame [OF h] show ?thesis by (simp add: turn_def)
  next
    case (Inr f)
    show ?thesis
    proof (cases f)
      case Next
      with Inr h assms have "contents sh c = (r, s1, c1)" by (simp add: turn_def)
      from contents_frame [OF this] header_frame [OF h] show ?thesis by simp
    next
      case Break
      with Inr h assms header_frame [OF h] show ?thesis by (simp add: turn_def)
    qed
  qed
qed

lemma parse_frame:
  "parse self c = (r, s1, c1) \<Longrightarrow>
   cnt s1 = cnt self \<and> enc s1 = enc self \<and> io s1 = io self \<and> buf s1 = buf self"
proof (induction self c arbitrary: r s1 c1 rule: parse.induct)
  case (1 self consumed)
  obtain rt st ct where t: "turn self consumed = (rt, st, ct)" by (cases "turn self consumed")
  note tf = turn_frame [OF t]
  show ?case
  proof (cases rt)
    case (Inl e)
    with t "1.prems" tf show ?thesis by (subst (asm) parse.simps) simp
  next
    case (Inr f)
    show ?thesis
    proof (cases f)
      case Break
      with Inr t "1.prems" tf show ?thesis by (subst (asm) parse.simps) simp
    next
      case Next
      with Inr t "1.prems" have "parse st ct = (r, s1, c1)"
        by (subst (asm) parse.simps) simp
      from "1.IH" [OF t [symmetric] _ _ _ this] Inr Next tf show ?thesis by simp
    qed
  qed
qed

lemma receive_cnt: "cnt (snd (receive self)) = cnt self"
proof -
  obtain r s1 c1 where p: "parse (collect self) 0 = (r, s1, c1)"
    by (cases "parse (collect self) 0")
  from parse_frame [OF p] have "cnt s1 = cnt self" by (simp add: collect_eq)
  with p show ?thesis
    by (cases r) (simp_all add: receive_def attempt_def disconnect_def)
qed


subsection \<open>Serial numbers\<close>

lemma send_format_cnt: "cnt (snd (send_format self cat num msg)) = cnt self"
  by (simp add: send_format_def split: sum.splits)

lemma send_serial_cnt: "cnt (snd (send_serial self cat msg)) = cnt self + 1"
proof -
  let ?s = "self\<lparr>cnt := cnt self + 1\<rparr>"
  obtain r s2 where f: "send_format ?s cat (PyInt (cnt ?s)) msg = (r, s2)"
    by (cases "send_format ?s cat (PyInt (cnt ?s)) msg")
  from send_format_cnt [of ?s cat "PyInt (cnt ?s)" msg] f have "cnt s2 = cnt self + 1" by simp
  with f show ?thesis by (cases r) (simp_all add: send_serial_def Let_def)
qed

lemma send_serial_value:
  "fst (send_serial self cat msg) = Inr n \<Longrightarrow> n = cnt self + 1"
proof -
  assume a: "fst (send_serial self cat msg) = Inr n"
  let ?s = "self\<lparr>cnt := cnt self + 1\<rparr>"
  obtain r s2 where f: "send_format ?s cat (PyInt (cnt ?s)) msg = (r, s2)"
    by (cases "send_format ?s cat (PyInt (cnt ?s)) msg")
  from send_format_cnt [of ?s cat "PyInt (cnt ?s)" msg] f have "cnt s2 = cnt self + 1" by simp
  with f a show ?thesis by (cases r) (simp_all add: send_serial_def Let_def)
qed

lemma numbered_serial:
  "numbered (send_serial self cat msg) = (ns, s1) \<Longrightarrow>
   cnt s1 = cnt self + 1 \<and> (\<forall>n\<in>set ns. n = cnt s1)"
  using send_serial_cnt [of self cat msg] send_serial_value [of self cat msg]
  by (cases "send_serial self cat msg"; cases "fst (send_serial self cat msg)") auto

lemma serve_cnt:
  "serve self r = (ns, s1) \<Longrightarrow>
   cnt self \<le> cnt s1 \<and> (\<forall>n\<in>set ns. cnt self < n \<and> n \<le> cnt s1)"
proof (cases r)
  case (Receive chunk)
  assume "serve self r = (ns, s1)"
  with Receive receive_cnt [of "self\<lparr>io := fs_send (io self) chunk\<rparr>"] show ?thesis
    by (auto simp: deliver_def)
qed (auto simp: send_command_def send_event_def send_result_def send_error_def
       send_format_cnt dest!: numbered_serial)

lemma serials_increasing:
  "sorted_wrt (<) (serials self rs) \<and> (\<forall>n\<in>set (serials self rs). cnt self < n)"
proof (induction rs arbitrary: self)
  case Nil
  show ?case by simp
next
  case (Cons r rs)
  obtain ns s1 where s: "serve self r = (ns, s1)" by (cases "serve self r")
  note c = serve_cnt [OF s]
  have len: "sorted_wrt (<) ns"
    using s by (cases r) (auto elim!: numbered.elims)
  from Cons.IH [of s1] c s len show ?case
    by (fastforce simp: sorted_wrt_append)
qed



subsection \<open>The header\<close>

lemma of_char_marker: "(of_char c = (64::nat)) = (c = CHR ''@'')"
proof -
  have "of_char CHR ''@'' = (64::nat)" by simp
  then show ?thesis by (metis of_char_eq_iff)
qed

lemma of_char_separator: "(of_char c = (58::nat)) = (c = CHR '':'')"
proof -
  have "of_char CHR '':'' = (58::nat)" by simp
  then show ?thesis by (metis of_char_eq_iff)
qed


lemma scan_size_digits_only:
  "list_all digit_byte bs \<Longrightarrow> scan_size o' i sz bs = Inr None"
  by (induction bs arbitrary: i sz) (simp_all add: digit_byte_def)

lemma parse_stop:
  "turn self c = (Inr Break, s1, c1) \<Longrightarrow> parse self c = (Inr (), s1, c1)"
  by (subst parse.simps) simp

lemma parse_raise:
  "turn self c = (Inl e, s1, c1) \<Longrightarrow> parse self c = (Inl e, s1, c1)"
  by (subst parse.simps) simp

lemma parse_next:
  "turn self c = (Inr Next, s1, c1) \<Longrightarrow> parse self c = parse s1 c1"
  by (subst parse.simps) simp

text \<open>
  Claim C4.  The decoder awaits a header (\<^verbatim>\<open>_siz\<close> is negative) and at least one byte
  is buffered at the offset.  If that byte is not \<^verbatim>\<open>@\<close>, the loop raises
  \<^verbatim>\<open>BadMessage("Missing begin message marker")\<close>, however few bytes there are.  If it is
  \<^verbatim>\<open>@\<close> and the next byte is the separator, the loop raises
  \<^verbatim>\<open>BadMessage("No size specified")\<close>.  If it is \<^verbatim>\<open>@\<close> and the scan reaches the end of
  the buffer, all the bytes after it being digits, the loop stops without an
  exception and leaves the channel as it is.
\<close>

theorem header_parsing:
  assumes "siz self < 0" and "off self < length (buf self)"
  shows "(buf self ! off self \<noteq> CHR ''@'' \<longrightarrow>
            parse self consumed
            = (Inl (BadMessage ''Missing begin message marker''), self, consumed))
       \<and> (buf self ! off self = CHR ''@'' \<and> off self + 1 < length (buf self)
            \<and> buf self ! (off self + 1) = CHR '':'' \<longrightarrow>
            parse self consumed = (Inl (BadMessage ''No size specified''), self, consumed))
       \<and> (buf self ! off self = CHR ''@''
            \<and> list_all digit_byte (drop (off self + 1) (buf self)) \<longrightarrow>
            parse self consumed = (Inr (), self, consumed))"
proof (intro conjI impI)
  assume "buf self ! off self \<noteq> CHR ''@''"
  with assms have "turn self consumed
      = (Inl (BadMessage ''Missing begin message marker''), self, consumed)"
    by (simp add: turn_def header_def of_char_marker)
  then show "parse self consumed
      = (Inl (BadMessage ''Missing begin message marker''), self, consumed)"
    by (rule parse_raise)
next
  assume a: "buf self ! off self = CHR ''@'' \<and> off self + 1 < length (buf self)
            \<and> buf self ! (off self + 1) = CHR '':''"
  then have "drop (off self + 1) (buf self)
             = CHR '':'' # drop (off self + 2) (buf self)"
    by (metis Cons_nth_drop_Suc Suc_eq_plus1 add_2_eq_Suc')
  with assms a have "turn self consumed
      = (Inl (BadMessage ''No size specified''), self, consumed)"
    by (simp add: turn_def header_def)
  then show "parse self consumed = (Inl (BadMessage ''No size specified''), self, consumed)"
    by (rule parse_raise)
next
  assume a: "buf self ! off self = CHR ''@''
            \<and> list_all digit_byte (drop (off self + 1) (buf self))"
  with assms scan_size_digits_only [of "drop (off self + 1) (buf self)" "off self" "off self + 1" 0]
  have "turn self consumed = (Inr Break, self, consumed)"
    by (simp add: turn_def header_def)
  then show "parse self consumed = (Inr (), self, consumed)"
    by (rule parse_stop)
qed


theorem header_parsing_witness:
  "parse ((init [] ENCODING)\<lparr>buf := ''x''\<rparr>) 0
     = (Inl (BadMessage ''Missing begin message marker''), (init [] ENCODING)\<lparr>buf := ''x''\<rparr>, 0)
   \<and> parse ((init [] ENCODING)\<lparr>buf := ''@:abc''\<rparr>) 0
     = (Inl (BadMessage ''No size specified''), (init [] ENCODING)\<lparr>buf := ''@:abc''\<rparr>, 0)
   \<and> parse ((init [] ENCODING)\<lparr>buf := ''@12''\<rparr>) 0
     = (Inr (), (init [] ENCODING)\<lparr>buf := ''@12''\<rparr>, 0)"
  using header_parsing [of "(init [] ENCODING)\<lparr>buf := ''x''\<rparr>" 0]
    header_parsing [of "(init [] ENCODING)\<lparr>buf := ''@:abc''\<rparr>" 0]
    header_parsing [of "(init [] ENCODING)\<lparr>buf := ''@12''\<rparr>" 0]
  by (simp add: init_def digit_byte_def)

subsection \<open>The pieces of a message\<close>

lemma index_of_absent: "c \<notin> set xs \<Longrightarrow> index_of c xs = None"
  by (induction xs) auto

lemma index_of_first: "c \<notin> set xs \<Longrightarrow> index_of c (xs @ c # ys) = Some (length xs)"
  by (induction xs) auto

lemma index_of_Some:
  "index_of c xs = Some k \<Longrightarrow> xs = take k xs @ c # drop (Suc k) xs \<and> c \<notin> set (take k xs)"
proof (induction xs arbitrary: k)
  case Nil
  then show ?case by simp
next
  case (Cons x xs)
  show ?case
  proof (cases "x = c")
    case True
    with Cons.prems show ?thesis by simp
  next
    case False
    with Cons.prems obtain j where j: "index_of c xs = Some j" "k = Suc j" by auto
    from Cons.IH [OF j(1)] j(2) False show ?thesis by simp
  qed
qed

lemma find_first: "c \<notin> set xs \<Longrightarrow> find' (xs @ c # ys) c 0 = int (length xs)"
  by (simp add: find'_def index_of_first)

lemma find_second:
  "c \<notin> set ys \<Longrightarrow>
   find' (xs @ c # ys @ c # zs) c (Suc (length xs)) = int (length xs) + 1 + int (length ys)"
  by (simp add: find'_def index_of_first)

lemma find_absent: "c \<notin> set (drop k s) \<Longrightarrow> find' s c k = - 1"
  by (simp add: find'_def index_of_absent)

lemma find_ge_minus_one: "- 1 \<le> find' s c k"
  by (simp add: find'_def split: option.splits)

lemma find_found:
  assumes "0 \<le> find' s c k"
  obtains j where "find' s c k = int (k + j)"
    and "drop k s = take j (drop k s) @ c # drop (Suc j) (drop k s)"
    and "c \<notin> set (take j (drop k s))"
proof -
  from assms obtain j where j: "index_of c (drop k s) = Some j"
    by (auto simp: find'_def split: option.splits)
  then have "find' s c k = int (k + j)" by (simp add: find'_def)
  with index_of_Some [OF j] that show thesis by blast
qed

lemma py_int_not_bad: "py_int s \<noteq> Inl (BadMessage r)"
  by (simp add: py_int_def Let_def split: prod.splits option.splits)

lemma pieces_bad_iff:
  "(pieces msg = Inl (BadMessage ''Expecting CAT:NUM:MSG''))
   = ((if 0 \<le> find' msg 58 0 then find' msg 58 (nat (find' msg 58 0 + 1)) else - 1)
      < find' msg 58 0 + 2)"
  using py_int_not_bad
  by (auto simp: pieces_def Let_def split: sum.splits)

lemma pieces_split:
  assumes "58 \<notin> set cat" and "58 \<notin> set num"
  shows "pieces (cat @ 58 # num @ 58 # payload)
         = (if num = [] then Inl (BadMessage ''Expecting CAT:NUM:MSG'')
            else case py_int num of Inl e \<Rightarrow> Inl e | Inr n \<Rightarrow> Inr (cat, n, payload))"
proof -
  let ?m = "cat @ 58 # num @ 58 # payload"
  have i1: "find' ?m 58 0 = int (length cat)"
    using assms(1) by (rule find_first)
  have i2: "find' ?m 58 (Suc (length cat)) = int (length cat) + 1 + int (length num)"
    using assms(2) by (rule find_second)
  have n1: "nat (int (length cat) + 1) = Suc (length cat)" by simp
  show ?thesis
    by (simp add: pieces_def Let_def i1 i2 n1 nat_add_distrib split: sum.splits)
qed

lemma pieces_shape:
  assumes "find' msg 58 0 + 2 \<le> (if 0 \<le> find' msg 58 0 then find' msg 58 (nat (find' msg 58 0 + 1)) else - 1)"
  shows "\<exists>cat num payload. msg = cat @ 58 # num @ 58 # payload
           \<and> 58 \<notin> set cat \<and> 58 \<notin> set num \<and> num \<noteq> []"
proof -
  from assms find_ge_minus_one [of msg 58 0] have p1: "0 \<le> find' msg 58 0"
    by (auto split: if_splits)
  then obtain k where k: "find' msg 58 0 = int (0 + k)"
      "drop 0 msg = take k (drop 0 msg) @ 58 # drop (Suc k) (drop 0 msg)"
      "58 \<notin> set (take k (drop 0 msg))"
    by (rule find_found)
  from assms p1 k(1) have p2: "int k + 2 \<le> find' msg 58 (Suc k)"
    by (simp add: nat_add_distrib)
  then have "0 \<le> find' msg 58 (Suc k)" by simp
  then obtain j where j: "find' msg 58 (Suc k) = int (Suc k + j)"
      "drop (Suc k) msg = take j (drop (Suc k) msg) @ 58 # drop (Suc j) (drop (Suc k) msg)"
      "58 \<notin> set (take j (drop (Suc k) msg))"
    by (rule find_found)
  from p2 j(1) have jpos: "0 < j" by simp
  let ?cat = "take k msg" and ?num = "take j (drop (Suc k) msg)"
  let ?rest = "drop (Suc j) (drop (Suc k) msg)"
  from k(2) j(2) have "msg = ?cat @ 58 # ?num @ 58 # ?rest" by simp
  moreover from k(3) have "58 \<notin> set ?cat" by simp
  moreover note j(3)
  moreover have "?num \<noteq> []"
  proof
    assume "?num = []"
    with j(2) jpos show False
      by (metis append_Nil drop_eq_Nil2 le_eq_less_or_eq list.discI nat_neq_iff take_eq_Nil)
  qed
  ultimately show ?thesis by blast
qed


lemmas int_defs = py_int_def strip_def is_space_def is_digit_def Let_def
lemmas pieces_defs = pieces_def find'_def str_of_def

text \<open>
  Claim C7, as amended.  For a message text, the loop raises
  \<^verbatim>\<open>BadMessage("Expecting CAT:NUM:MSG")\<close> exactly when the second separator found is
  less than two places after the first one found (or one of them is not found); that
  is, exactly when the text is not of the form \<^verbatim>\<open>CAT:NUM:REST\<close> with no separator in
  \<^verbatim>\<open>CAT\<close> and \<^verbatim>\<open>NUM\<close> and with \<^verbatim>\<open>NUM\<close> not empty; \<^verbatim>\<open>CAT\<close> may be empty.  When the
  text is of that form and \<^verbatim>\<open>NUM\<close> is the literal of an integer, the job is the
  category \<^verbatim>\<open>CAT\<close>, that integer, and the payload \<^verbatim>\<open>REST\<close>, which may hold separators.
\<close>

theorem body_parsing:
  "(pieces msg = Inl (BadMessage ''Expecting CAT:NUM:MSG''))
     = ((if 0 \<le> find' msg 58 0 then find' msg 58 (nat (find' msg 58 0 + 1)) else - 1)
        < find' msg 58 0 + 2)
   \<and> (pieces msg = Inl (BadMessage ''Expecting CAT:NUM:MSG''))
     = (\<not> (\<exists>cat num payload. msg = cat @ 58 # num @ 58 # payload
              \<and> 58 \<notin> set cat \<and> 58 \<notin> set num \<and> num \<noteq> []))
   \<and> (58 \<notin> set cat \<and> 58 \<notin> set num \<and> num \<noteq> [] \<and> py_int num = Inr n
        \<longrightarrow> pieces (cat @ 58 # num @ 58 # payload) = Inr (cat, n, payload))"
proof (intro conjI)
  show "(pieces msg = Inl (BadMessage ''Expecting CAT:NUM:MSG''))
     = ((if 0 \<le> find' msg 58 0 then find' msg 58 (nat (find' msg 58 0 + 1)) else - 1)
        < find' msg 58 0 + 2)"
    by (rule pieces_bad_iff)
next
  show "(pieces msg = Inl (BadMessage ''Expecting CAT:NUM:MSG''))
     = (\<not> (\<exists>cat num payload. msg = cat @ 58 # num @ 58 # payload
              \<and> 58 \<notin> set cat \<and> 58 \<notin> set num \<and> num \<noteq> []))"
  proof
    assume bad: "pieces msg = Inl (BadMessage ''Expecting CAT:NUM:MSG'')"
    show "\<not> (\<exists>cat num payload. msg = cat @ 58 # num @ 58 # payload
              \<and> 58 \<notin> set cat \<and> 58 \<notin> set num \<and> num \<noteq> [])"
    proof
      assume "\<exists>cat num payload. msg = cat @ 58 # num @ 58 # payload
              \<and> 58 \<notin> set cat \<and> 58 \<notin> set num \<and> num \<noteq> []"
      then obtain cat num payload where m: "msg = cat @ 58 # num @ 58 # payload"
        "58 \<notin> set cat" "58 \<notin> set num" "num \<noteq> []" by blast
      from pieces_split [OF m(2,3), of payload] m(1,4) bad py_int_not_bad [of num]
      show False by (simp split: sum.splits)
    qed
  next
    assume "\<not> (\<exists>cat num payload. msg = cat @ 58 # num @ 58 # payload
              \<and> 58 \<notin> set cat \<and> 58 \<notin> set num \<and> num \<noteq> [])"
    with pieces_shape [of msg]
    have "(if 0 \<le> find' msg 58 0 then find' msg 58 (nat (find' msg 58 0 + 1)) else - 1)
        < find' msg 58 0 + 2"
      by fastforce
    then show "pieces msg = Inl (BadMessage ''Expecting CAT:NUM:MSG'')"
      by (simp add: pieces_bad_iff)
  qed
next
  show "58 \<notin> set cat \<and> 58 \<notin> set num \<and> num \<noteq> [] \<and> py_int num = Inr n
        \<longrightarrow> pieces (cat @ 58 # num @ 58 # payload) = Inr (cat, n, payload)"
    by (simp add: pieces_split)
qed

theorem body_parsing_witness:
  "pieces (str_of ''ab'') = Inl (BadMessage ''Expecting CAT:NUM:MSG'')
   \<and> pieces (str_of ''a:12:b:c'') = Inr (str_of ''a'', 12, str_of ''b:c'')"
proof -
  have i: "py_int (str_of ''12'') = Inr 12"
    by (simp add: int_defs str_of_def)
  have f: "find' (str_of ''ab'') 58 0 = - 1"
    by (simp add: pieces_defs)
  from body_parsing [of "str_of ''ab''" "str_of ''a''" "str_of ''12''" 12 "str_of ''b:c''"] i f
  show ?thesis by (simp add: str_of_def)
qed

text \<open>Claim C7 as it is stated fails: in \<^verbatim>\<open>a:b:c\<close> the second separator is two places
  after the first, and no job is made, since \<^verbatim>\<open>int("b")\<close> raises \<^verbatim>\<open>ValueError\<close>; and
  \<^verbatim>\<open>:5:x\<close>, which has no category, is accepted.\<close>

theorem body_parsing_counterexample:
  "find' (str_of ''a:b:c'') 58 0 = 1 \<and> find' (str_of ''a:b:c'') 58 2 = 3
   \<and> pieces (str_of ''a:b:c'') = Inl (ValueError ''invalid literal for int() with base 10'')
   \<and> pieces (str_of '':5:x'') = Inr ([], 5, str_of ''x'')"
  by (simp add: pieces_defs int_defs)


subsection \<open>The codecs\<close>

lemma utf8_1: "c < 128 \<Longrightarrow> utf8_decode (utf8_char c @ bs) = cons_text c (utf8_decode bs)"
  by (simp add: utf8_char_def)

lemma utf8_2:
  assumes "128 \<le> c" "c < 2048"
  shows "utf8_decode (utf8_char c @ bs) = cons_text c (utf8_decode bs)"
proof -
  have d: "2 \<le> c div 64" "c div 64 < 32" using assms by auto
  have m: "c mod 64 \<le> 63" by (simp add: less_Suc_eq_le [symmetric])
  have b0: "(of_char (char_of (192 + c div 64)) :: nat) = 192 + c div 64"
    using d by simp
  have b1: "(of_char (char_of (128 + c mod 64)) :: nat) = 128 + c mod 64"
    using m by simp
  have v: "c div 64 * 64 + c mod 64 = c" by simp
  show ?thesis
    using assms d m
    by (simp add: utf8_char_def b0 b1 continuation_def v del: of_char_of)
qed

lemma split3:
  fixes c :: nat
  shows "c div 4096 * 4096 + c div 64 mod 64 * 64 + c mod 64 = c"
proof -
  define q where "q = c div 64"
  have a: "c = q * 64 + c mod 64" unfolding q_def by simp
  have "q div 64 = c div 4096" unfolding q_def by (simp add: div_mult2_eq [symmetric])
  then have b: "q = c div 4096 * 64 + q mod 64" by (metis div_mult_mod_eq)
  have "c div 4096 * 4096 + q mod 64 * 64 + c mod 64 = (c div 4096 * 64 + q mod 64) * 64 + c mod 64"
    by (simp add: algebra_simps)
  also have "\<dots> = q * 64 + c mod 64" using b by simp
  also have "\<dots> = c" using a by simp
  finally show ?thesis unfolding q_def .
qed

lemma utf8_3:
  assumes "2048 \<le> c" "c < 65536" "\<not> surrogate c"
  shows "utf8_decode (utf8_char c @ bs) = cons_text c (utf8_decode bs)"
proof -
  define h where "h = c div 4096"
  define m where "m = c div 64 mod 64"
  define l where "l = c mod 64"
  have "h < 16" unfolding h_def using assms(2) by (intro less_mult_imp_div_less) simp
  moreover have "m < 64" "l < 64" unfolding m_def l_def by simp_all
  ultimately have r: "h \<le> 15" "m \<le> 63" "l \<le> 63" by simp_all
  have v: "h * 4096 + m * 64 + l = c"
    unfolding h_def m_def l_def by (rule split3)
  have b0: "(of_char (char_of (224 + h)) :: nat) = 224 + h" using r by simp
  have b1: "(of_char (char_of (128 + m)) :: nat) = 128 + m" using r by simp
  have b2: "(of_char (char_of (128 + l)) :: nat) = 128 + l" using r by simp
  have u: "utf8_char c = [char_of (224 + h), char_of (128 + m), char_of (128 + l)]"
    using assms by (simp add: utf8_char_def h_def m_def l_def)
  show ?thesis
    using assms r
    by (simp add: u b0 b1 b2 continuation_def v del: of_char_of)
qed

lemma split4:
  fixes c :: nat
  shows "c div 262144 * 262144 + c div 4096 mod 64 * 4096 + c div 64 mod 64 * 64 + c mod 64 = c"
proof -
  define p where "p = c div 4096"
  have "p div 64 = c div 262144" unfolding p_def by (simp add: div_mult2_eq [symmetric])
  then have b: "p = c div 262144 * 64 + p mod 64" by (metis div_mult_mod_eq)
  have "c div 262144 * 262144 + p mod 64 * 4096 + c div 64 mod 64 * 64 + c mod 64
        = (c div 262144 * 64 + p mod 64) * 4096 + c div 64 mod 64 * 64 + c mod 64"
    by (simp add: algebra_simps)
  also have "\<dots> = p * 4096 + c div 64 mod 64 * 64 + c mod 64" using b by simp
  also have "\<dots> = c" unfolding p_def by (rule split3)
  finally show ?thesis unfolding p_def .
qed

lemma utf8_4:
  assumes "65536 \<le> c" "c \<le> 1114111"
  shows "utf8_decode (utf8_char c @ bs) = cons_text c (utf8_decode bs)"
proof -
  define h where "h = c div 262144"
  define k where "k = c div 4096 mod 64"
  define m where "m = c div 64 mod 64"
  define l where "l = c mod 64"
  have "h < 5" unfolding h_def using assms(2) by (intro less_mult_imp_div_less) simp
  moreover have "k < 64" "m < 64" "l < 64" unfolding k_def m_def l_def by simp_all
  ultimately have r: "h \<le> 4" "k \<le> 63" "m \<le> 63" "l \<le> 63" by simp_all
  have v: "h * 262144 + k * 4096 + m * 64 + l = c"
    unfolding h_def k_def m_def l_def by (rule split4)
  have b0: "(of_char (char_of (240 + h)) :: nat) = 240 + h" using r by simp
  have b1: "(of_char (char_of (128 + k)) :: nat) = 128 + k" using r by simp
  have b2: "(of_char (char_of (128 + m)) :: nat) = 128 + m" using r by simp
  have b3: "(of_char (char_of (128 + l)) :: nat) = 128 + l" using r by simp
  have u: "utf8_char c
           = [char_of (240 + h), char_of (128 + k), char_of (128 + m), char_of (128 + l)]"
    using assms by (simp add: utf8_char_def h_def k_def m_def l_def)
  show ?thesis
    using assms r
    by (simp add: u b0 b1 b2 b3 continuation_def v del: of_char_of)
qed

lemma utf8_char_decode:
  assumes "scalar c"
  shows "utf8_decode (utf8_char c @ bs) = cons_text c (utf8_decode bs)"
proof -
  consider "c < 128" | "128 \<le> c" "c < 2048" | "2048 \<le> c" "c < 65536" | "65536 \<le> c"
    by linarith
  then show ?thesis
  proof cases
    case 1
    then show ?thesis by (rule utf8_1)
  next
    case 2
    then show ?thesis by (rule utf8_2)
  next
    case 3
    with assms show ?thesis by (intro utf8_3) (simp_all add: scalar_def)
  next
    case 4
    with assms show ?thesis by (intro utf8_4) (simp_all add: scalar_def)
  qed
qed

lemma utf8_roundtrip:
  "list_all scalar s \<Longrightarrow> utf8_decode (concat (map utf8_char s)) = Inr s"
  by (induction s) (simp_all add: utf8_char_decode cons_text_def)

lemma ascii_roundtrip:
  assumes "list_all (\<lambda>c. c < 128) s"
  shows "ascii_decode (map char_of s) = Inr s"
proof -
  have a: "\<forall>c\<in>set s. (of_char (char_of c :: char) :: nat) = c"
    using assms by (auto simp: list_all_iff)
  then have "map (\<lambda>c. (of_char (char_of c :: char) :: nat)) s = s"
    by (simp add: map_idI)
  moreover from a assms have "list_all (\<lambda>c. (of_char (char_of c :: char) :: nat) < 128) s"
    by (simp add: list_all_iff)
  ultimately show ?thesis
    by (simp add: ascii_decode_def list_all_iff comp_def del: of_char_of)
qed

lemma codec_roundtrip:
  assumes "encode e s = Inr b"
  shows "decode e b = Inr s"
proof (cases "e = ''utf-8''")
  case True
  with assms show ?thesis
    by (auto simp add: encode_def decode_def utf8_encode_def utf8_roundtrip split: if_splits)
next
  case False
  with assms show ?thesis
    by (auto simp add: encode_def decode_def ascii_encode_def ascii_roundtrip split: if_splits)
qed

subsection \<open>Decimal digits\<close>

lemma digits_nonempty: "digits n \<noteq> []"
  by (subst digits.simps) simp

lemma digits_are_digits: "list_all is_digit (digits n)"
proof (induction n rule: digits.induct)
  case (1 n)
  have "n mod 10 < 10" by simp
  then have "n mod 10 \<le> 9" by linarith
  then have "is_digit (48 + n mod 10)" "n < 10 \<Longrightarrow> is_digit (48 + n)"
    by (simp_all add: is_digit_def)
  with 1 show ?case
    by (subst digits.simps) simp
qed

lemma decimal_digits: "decimal 0 (digits n) = n"
proof (induction n rule: digits.induct)
  case (1 n)
  show ?case
  proof (cases "n < 10")
    case True
    then show ?thesis by (subst digits.simps) (simp add: decimal_def)
  next
    case False
    with 1 have "decimal 0 (digits (n div 10)) = n div 10" by simp
    with False show ?thesis
      by (subst digits.simps) (simp add: decimal_def)
  qed
qed

lemma is_digit_facts:
  "is_digit d \<Longrightarrow> d \<noteq> 58 \<and> d \<noteq> 45 \<and> d \<noteq> 43 \<and> d \<noteq> 95 \<and> \<not> is_space d \<and> d < 128"
  by (auto simp: is_digit_def is_space_def)

lemma digit_byte_of: "is_digit d \<Longrightarrow> (of_char (char_of d :: char) :: nat) = d"
  by (simp add: is_digit_def)

lemma scan_size_digits:
  "list_all is_digit ds \<Longrightarrow>
   scan_size o' i sz (map char_of ds @ bs) = scan_size o' (i + length ds) (decimal sz ds) bs"
proof (induction ds arbitrary: i sz)
  case Nil
  then show ?case by (simp add: decimal_def)
next
  case (Cons d ds)
  then have d: "is_digit d" and ds: "list_all is_digit ds" by simp_all
  from d have b: "(of_char (char_of d :: char) :: nat) = d" by (rule digit_byte_of)
  from d have r: "48 \<le> d" "d \<le> 57" by (simp_all add: is_digit_def)
  have "scan_size o' i sz (map char_of (d # ds) @ bs)
        = scan_size o' (i + 1) (10 * sz + (d - 48)) (map char_of ds @ bs)"
    using r by (simp add: b del: of_char_of)
  also have "\<dots> = scan_size o' (i + 1 + length ds) (decimal (10 * sz + (d - 48)) ds) bs"
    by (rule Cons.IH [OF ds])
  finally show ?case by (simp add: decimal_def)
qed

lemma int_digits_run:
  "list_all is_digit ds \<Longrightarrow> ds \<noteq> [] \<or> p \<Longrightarrow> int_digits p acc ds = Some (decimal acc ds)"
proof (induction ds arbitrary: p acc)
  case Nil
  then show ?case by (simp add: decimal_def)
next
  case (Cons d ds)
  then have "int_digits True (10 * acc + (d - 48)) ds = Some (decimal (10 * acc + (d - 48)) ds)"
    by simp
  with Cons.prems show ?case by (simp add: decimal_def)
qed

lemma strip_id:
  assumes "s \<noteq> []" "\<not> is_space (hd s)" "\<not> is_space (last s)"
  shows "strip s = s"
proof -
  from assms have a: "dropWhile is_space s = s" by (cases s) simp_all
  from assms have "dropWhile is_space (rev s) = rev s"
    by (cases "rev s") (simp_all add: last_rev [symmetric] hd_rev)
  with a show ?thesis by (simp add: strip_def)
qed

lemma last_digits: "is_digit (last (digits n))"
  using digits_are_digits [of n] digits_nonempty [of n]
  by (simp add: list_all_iff)

lemma hd_digits: "is_digit (hd (digits n))"
  using digits_are_digits [of n] digits_nonempty [of n]
  by (simp add: list_all_iff)

lemma py_int_str_int: "py_int (str_int n) = Inr n"
proof (cases "n < 0")
  case True
  let ?d = "digits (nat (- n))"
  have s: "strip (45 # ?d) = 45 # ?d"
    using last_digits [of "nat (- n)"] digits_nonempty [of "nat (- n)"] is_digit_facts
    by (intro strip_id) (auto simp: is_space_def)
  have "int_digits False 0 ?d = Some (nat (- n))"
    using int_digits_run [OF digits_are_digits, of "nat (- n)" False 0] digits_nonempty
    by (simp add: decimal_digits)
  with True s show ?thesis by (simp add: py_int_def str_int_def)
next
  case False
  let ?d = "digits (nat n)"
  have s: "strip ?d = ?d"
    using last_digits [of "nat n"] hd_digits [of "nat n"] digits_nonempty [of "nat n"]
      is_digit_facts
    by (intro strip_id) auto
  obtain c cs where c: "?d = c # cs" using digits_nonempty [of "nat n"] by (cases ?d) auto
  with hd_digits [of "nat n"] is_digit_facts [of c] have c': "c \<noteq> 45" "c \<noteq> 43" by auto
  have "int_digits False 0 ?d = Some (nat n)"
    using int_digits_run [OF digits_are_digits, of "nat n" False 0] digits_nonempty
    by (simp add: decimal_digits)
  with False s c c' show ?thesis by (simp add: py_int_def str_int_def)
qed

lemma str_int_no_separator: "58 \<notin> set (str_int n)"
  using digits_are_digits is_digit_facts
  by (auto simp: str_int_def list_all_iff)

lemma str_int_nonempty: "str_int n \<noteq> []"
  using digits_nonempty by (simp add: str_int_def)

lemma str_int_scalar: "list_all scalar (str_int n)"
proof -
  have "is_digit d \<Longrightarrow> scalar d" for d
    by (simp add: is_digit_def scalar_def surrogate_def)
  with digits_are_digits show ?thesis
    by (auto simp: str_int_def list_all_iff scalar_def surrogate_def)
qed

subsection \<open>The bytes of a message\<close>

lemma char_of_marker: "char_of (64::nat) = CHR ''@''"
  by (simp add: char_of_def bit_simps)

lemma char_of_separator: "char_of (58::nat) = CHR '':''"
  by (simp add: char_of_def bit_simps)

lemma body_scalar: "well_formed m \<Longrightarrow> list_all scalar (body m)"
  using str_int_scalar by (cases m) (simp add: body_def scalar_def surrogate_def)

lemma header_ascii:
  "encode ''ascii'' (64 # str_int (int n) @ [58])
   = Inr (CHR ''@'' # map char_of (digits n) @ [CHR '':''])"
proof -
  have "list_all (\<lambda>c. c < 128) (digits n)"
    using digits_are_digits [of n] is_digit_facts by (auto simp: list_all_iff)
  then show ?thesis
    by (simp add: encode_def ascii_encode_def str_int_def char_of_marker char_of_separator)
qed

lemma send_format_well_formed:
  assumes "well_formed (cat, num, msg)" and "enc self = ENCODING"
  shows "send_format self (PyStr cat) (PyInt num) (PyStr msg)
         = (Inr (), self\<lparr>io := io self @ CHR ''@''
               # map char_of (digits (length (concat (map utf8_char (body (cat, num, msg))))))
               @ CHR '':'' # concat (map utf8_char (body (cat, num, msg)))\<rparr>)"
proof -
  have e: "encode (enc self) (cat @ 58 # str_int num @ 58 # msg)
           = Inr (concat (map utf8_char (body (cat, num, msg))))"
    using body_scalar [OF assms(1)] assms(2)
    by (simp add: encode_def ENCODING_def utf8_encode_def body_def)
  show ?thesis
    by (simp add: send_format_def e header_ascii fs_send_def fs_flush_def)
qed

lemma frame_eq:
  assumes "well_formed m"
  shows "frame m = CHR ''@'' # map char_of (digits (length (concat (map utf8_char (body m)))))
                   @ CHR '':'' # concat (map utf8_char (body m))"
proof -
  obtain cat num msg where m: "m = (cat, num, msg)" by (cases m)
  have "enc (init [] ENCODING) = ENCODING" by (simp add: init_def)
  from send_format_well_formed [OF assms [unfolded m] this] m show ?thesis
    by (simp add: init_def)
qed

lemma send_format_frame:
  assumes "well_formed (cat, num, msg)" and "enc self = ENCODING"
  shows "send_format self (PyStr cat) (PyInt num) (PyStr msg)
         = (Inr (), self\<lparr>io := io self @ frame (cat, num, msg)\<rparr>)"
  using send_format_well_formed [OF assms] frame_eq [OF assms(1)] by simp

lemma pieces_body: "well_formed m \<Longrightarrow> pieces (body m) = Inr m"
  using str_int_no_separator str_int_nonempty py_int_str_int
  by (cases m) (simp add: body_def pieces_split)

lemma body_bytes_nonempty: "concat (map utf8_char (body m)) \<noteq> []"
  by (cases m) (simp add: body_def utf8_char_def)

subsection \<open>The loop over complete messages\<close>

lemma drop_view:
  assumes "drop k xs = y # ys"
  shows "k < length xs" and "xs ! k = y" and "drop (Suc k) xs = ys"
proof -
  from assms show l: "k < length xs" by (cases "k < length xs") simp_all
  from assms l show "xs ! k = y" by (metis hd_drop_conv_nth list.sel(1))
  from assms show "drop (Suc k) xs = ys" by (metis drop_Suc list.sel(3) tl_drop)
qed

lemma drop_more:
  assumes "drop k xs = ys @ zs"
  shows "drop (k + length ys) xs = zs"
proof -
  have "drop (k + length ys) xs = drop (length ys) (drop k xs)"
    by (simp add: add.commute)
  with assms show ?thesis by simp
qed

lemma drop_length:
  assumes "drop k xs = ys" and "ys \<noteq> []"
  shows "length xs = k + length ys"
  using assms by (metis drop_eq_Nil2 le_add_diff_inverse length_drop linorder_le_cases)

lemma header_of_frame:
  assumes "siz self < 0"
    and "drop (off self) (buf self) = CHR ''@'' # map char_of (digits n) @ CHR '':'' # rest"
  shows "header self
         = (Inr Next, self\<lparr>off := off self + length (digits n) + 2, siz := int n\<rparr>)"
proof -
  note v = drop_view [OF assms(2)]
  have "scan_size (off self) (off self + 1) 0 (map char_of (digits n) @ CHR '':'' # rest)
        = scan_size (off self) (off self + 1 + length (digits n)) (decimal 0 (digits n))
            (CHR '':'' # rest)"
    by (rule scan_size_digits [OF digits_are_digits])
  also have "\<dots> = Inr (Some (off self + 1 + length (digits n) + 1, n))"
    using digits_nonempty [of n] by (simp add: decimal_digits)
  finally have "scan_size (off self) (off self + 1) 0 (drop (off self + 1) (buf self))
                = Inr (Some (off self + length (digits n) + 2, n))"
    using v(3) by simp
  with assms(1) v(1,2) show ?thesis
    by (simp add: header_def)
qed

lemma contents_of_body:
  assumes "siz self = int (length b)" and "b \<noteq> []"
    and "drop (off self) (buf self) = b @ rest"
    and "decode (enc self) b = Inr t" and "pieces t = Inr m"
  shows "contents self c
         = (Inr Next, self\<lparr>off := off self + length b, siz := - 1, jobs := jobs self @ [m]\<rparr>,
            off self + length b)"
proof -
  from assms(2,3) have "length (buf self) = off self + length (b @ rest)"
    by (intro drop_length) simp_all
  then have l: "\<not> int (length (buf self)) < int (off self) + siz self"
    using assms(1) by simp
  have t: "take (length b) (drop (off self) (buf self)) = b"
    using assms(3) by simp
  from assms(1,2) have p: "0 < siz self" by simp
  show ?thesis
    using l p
    by (simp add: contents_def assms(1) t assms(4) assms(5) push_job_def)
qed

lemma frame_length:
  assumes "well_formed m"
  shows "length (frame m)
         = length (digits (length (concat (map utf8_char (body m))))) + 2
           + length (concat (map utf8_char (body m)))"
  by (simp add: frame_eq [OF assms])

lemma turn_of_frame:
  assumes "siz self < 0" and "enc self = ENCODING" and "well_formed m"
    and "drop (off self) (buf self) = frame m @ rest"
  shows "turn self c
         = (Inr Next,
            self\<lparr>off := off self + length (frame m), siz := - 1, jobs := jobs self @ [m]\<rparr>,
            off self + length (frame m))"
proof -
  define b where "b = concat (map utf8_char (body m))"
  define k where "k = length (digits (length b)) + 2"
  define h where "h = self\<lparr>off := off self + k, siz := int (length b)\<rparr>"
  have f: "frame m = (CHR ''@'' # map char_of (digits (length b)) @ [CHR '':'']) @ b"
    using frame_eq [OF assms(3)] by (simp add: b_def)
  have len: "length (frame m) = k + length b"
    using frame_length [OF assms(3)] by (simp add: b_def k_def)
  have d: "drop (off self) (buf self)
           = CHR ''@'' # map char_of (digits (length b)) @ CHR '':'' # (b @ rest)"
    using assms(4) f by simp
  have hd: "header self = (Inr Next, h)"
    using header_of_frame [OF assms(1) d] by (simp add: h_def k_def add.assoc)
  have "drop (off self + length (CHR ''@'' # map char_of (digits (length b)) @ [CHR '':'']))
          (buf self) = b @ rest"
    by (rule drop_more) (simp add: d)
  moreover have "off self + length (CHR ''@'' # map char_of (digits (length b)) @ [CHR '':''])
                 = off self + k"
    by (simp add: k_def)
  ultimately have "drop (off self + k) (buf self) = b @ rest"
    by (simp only:)
  then have dh: "drop (off h) (buf h) = b @ rest"
    by (simp add: h_def)
  have dec: "decode (enc h) b = Inr (body m)"
    using assms(2) body_scalar [OF assms(3)]
    by (simp add: h_def b_def decode_def ENCODING_def utf8_roundtrip)
  have sz: "siz h = int (length b)" by (simp add: h_def)
  have ne: "b \<noteq> []" unfolding b_def by (rule body_bytes_nonempty)
  have c: "contents h c
        = (Inr Next, h\<lparr>off := off h + length b, siz := - 1, jobs := jobs h @ [m]\<rparr>,
           off h + length b)"
    using sz ne dh dec pieces_body [OF assms(3)] by (rule contents_of_body)
  have t: "turn self c
        = (Inr Next, h\<lparr>off := off h + length b, siz := - 1, jobs := jobs h @ [m]\<rparr>,
           off h + length b)"
    by (simp only: turn_def hd c prod.case sum.case flow.case)
  have o: "off h + length b = off self + length (frame m)"
    by (simp add: h_def len)
  have "h\<lparr>off := off h + length b, siz := - 1, jobs := jobs h @ [m]\<rparr>
        = self\<lparr>off := off self + length (frame m), siz := - 1, jobs := jobs self @ [m]\<rparr>"
    unfolding o by (simp add: h_def)
  with t o show ?thesis by (simp only:)
qed

lemma parse_of_frame:
  assumes "siz self < 0" and "enc self = ENCODING" and "well_formed m"
    and "drop (off self) (buf self) = frame m @ rest"
  shows "parse self c
         = parse (self\<lparr>off := off self + length (frame m), siz := - 1,
                        jobs := jobs self @ [m]\<rparr>)
             (off self + length (frame m))"
  using turn_of_frame [OF assms] by (rule parse_next)

lemma wire_Cons: "wire (m # ms) = frame m @ wire ms"
  by (simp add: wire_def)

lemma wire_Nil: "wire [] = []"
  by (simp add: wire_def)

lemma wire_append: "wire (ms @ ns) = wire ms @ wire ns"
  by (simp add: wire_def)

lemma after_Cons:
  "after (self\<lparr>off := off self + length (frame m), siz := - 1, jobs := jobs self @ [m]\<rparr>) ms
   = after self (m # ms)"
  by (simp add: after_def wire_Cons add.assoc)

lemma parse_of_wire:
  assumes "siz self < 0" and "enc self = ENCODING" and "list_all well_formed ms"
    and "drop (off self) (buf self) = wire ms @ rest" and "ms \<noteq> []"
  shows "parse self c = parse (after self ms) (off self + length (wire ms))"
  using assms
proof (induction ms arbitrary: self c)
  case Nil
  then show ?case by simp
next
  case (Cons m ms)
  define s where
    "s = self\<lparr>off := off self + length (frame m), siz := - 1, jobs := jobs self @ [m]\<rparr>"
  from Cons.prems have wf: "well_formed m" "list_all well_formed ms" by simp_all
  from Cons.prems have d: "drop (off self) (buf self) = frame m @ (wire ms @ rest)"
    by (simp add: wire_Cons)
  have step: "parse self c = parse s (off self + length (frame m))"
    unfolding s_def using Cons.prems(1,2) wf(1) d by (rule parse_of_frame)
  show ?case
  proof (cases "ms = []")
    case True
    have "s = after self [m]" by (simp add: s_def after_def wire_Cons wire_Nil)
    with step True show ?thesis by (simp add: wire_Cons wire_Nil)
  next
    case False
    have "drop (off self + length (frame m)) (buf self) = wire ms @ rest"
      using d by (rule drop_more)
    then have d': "drop (off s) (buf s) = wire ms @ rest" by (simp add: s_def)
    have s1: "siz s < 0" and s2: "enc s = ENCODING"
      using Cons.prems(2) by (simp_all add: s_def)
    have "parse s (off self + length (frame m))
          = parse (after s ms) (off s + length (wire ms))"
      using s1 s2 wf(2) d' False by (rule Cons.IH)
    moreover have "after s ms = after self (m # ms)"
      unfolding s_def by (rule after_Cons)
    moreover have "off s + length (wire ms) = off self + length (wire (m # ms))"
      by (simp add: s_def wire_Cons)
    ultimately show ?thesis using step by (simp only:)
  qed
qed

lemma scan_size_adv:
  "scan_size o' i sz bs = Inr (Some (i', s')) \<Longrightarrow> i < i' \<and> i' \<le> i + length bs"
proof (induction bs arbitrary: i sz)
  case Nil
  then show ?case by simp
next
  case (Cons b bs)
  show ?case
  proof (cases "ZERO \<le> of_char b \<and> of_char b \<le> NINE")
    case True
    with Cons.prems
    have "scan_size o' (i + 1) (10 * sz + (of_char b - ZERO)) bs = Inr (Some (i', s'))"
      by simp
    from Cons.IH [OF this] show ?thesis by simp
  next
    case False
    with Cons.prems show ?thesis by (auto split: if_splits)
  qed
qed

lemma header_grows:
  assumes "header self = (r, s1)"
  shows "off self \<le> off s1"
  using assms
  by (auto simp: header_def Let_def split: if_splits sum.splits option.splits
      dest!: scan_size_adv)

lemma contents_grows:
  assumes "contents self c = (r, s1, c1)"
  shows "off self \<le> off s1 \<and> prefix (jobs self) (jobs s1)"
  using assms
  by (auto simp: contents_def Let_def push_job_def split: if_splits sum.splits)

lemma turn_grows:
  assumes "turn self c = (r, s1, c1)"
  shows "off self \<le> off s1 \<and> prefix (jobs self) (jobs s1)"
proof -
  obtain rh sh where h: "header self = (rh, sh)" by (cases "header self")
  note hf = header_frame [OF h] header_grows [OF h]
  show ?thesis
  proof (cases rh)
    case (Inl e)
    with h assms hf show ?thesis by (simp add: turn_def)
  next
    case (Inr f)
    show ?thesis
    proof (cases f)
      case Next
      with Inr h assms have "contents sh c = (r, s1, c1)" by (simp add: turn_def)
      from contents_grows [OF this] hf show ?thesis by simp
    next
      case Break
      with Inr h assms hf show ?thesis by (simp add: turn_def)
    qed
  qed
qed

lemma parse_grows:
  "parse self c = (r, s1, c1) \<Longrightarrow> off self \<le> off s1 \<and> prefix (jobs self) (jobs s1)"
proof (induction self c arbitrary: r s1 c1 rule: parse.induct)
  case (1 self consumed)
  obtain rt st ct where t: "turn self consumed = (rt, st, ct)" by (cases "turn self consumed")
  note tg = turn_grows [OF t]
  show ?case
  proof (cases rt)
    case (Inl e)
    with t "1.prems" tg show ?thesis by (subst (asm) parse.simps) simp
  next
    case (Inr f)
    show ?thesis
    proof (cases f)
      case Break
      with Inr t "1.prems" tg show ?thesis by (subst (asm) parse.simps) simp
    next
      case Next
      with Inr t "1.prems" have "parse st ct = (r, s1, c1)"
        by (subst (asm) parse.simps) simp
      from "1.IH" [OF t [symmetric] _ _ _ this] Inr Next tg show ?thesis
        by (auto intro: prefix_order.trans)
    qed
  qed
qed

lemma after_Nil: "siz self = - 1 \<Longrightarrow> after self [] = self"
  by (cases self) (simp add: after_def wire_Nil)

lemma parse_of_wire_all:
  assumes "siz self = - 1" and "enc self = ENCODING" and "list_all well_formed ms"
    and "drop (off self) (buf self) = wire ms @ rest"
  shows "parse self (off self) = parse (after self ms) (off self + length (wire ms))"
proof (cases "ms = []")
  case True
  with assms(1) show ?thesis by (simp add: after_Nil wire_Nil)
next
  case False
  from assms(1) have "siz self < 0" by simp
  then show ?thesis using assms(2,3,4) False by (rule parse_of_wire)
qed

lemma collect_idle:
  assumes "idle self"
  shows "collect (self\<lparr>io := fs_send (io self) d\<rparr>) = self\<lparr>buf := d\<rparr>"
  using assms by (cases self) (simp add: collect_eq idle_def fs_send_def)

lemma parse_delivered:
  assumes "idle self" and "enc self = ENCODING" and "list_all well_formed ms"
  shows "parse (self\<lparr>buf := wire ms @ rest\<rparr>) 0
         = parse (self\<lparr>buf := wire ms @ rest, off := length (wire ms),
                        jobs := jobs self @ ms\<rparr>) (length (wire ms))"
proof -
  let ?s = "self\<lparr>buf := wire ms @ rest\<rparr>"
  have o: "off ?s = 0" and z: "siz ?s = - 1" and e: "enc ?s = ENCODING"
    using assms(1,2) by (simp_all add: idle_def)
  have d: "drop (off ?s) (buf ?s) = wire ms @ rest" using o by simp
  have "parse ?s (off ?s) = parse (after ?s ms) (off ?s + length (wire ms))"
    using z e assms(3) d by (rule parse_of_wire_all)
  moreover have "after ?s ms = self\<lparr>buf := wire ms @ rest, off := length (wire ms),
                        jobs := jobs self @ ms\<rparr>"
    using assms(1) by (cases self) (simp add: after_def idle_def)
  ultimately show ?thesis using o by simp
qed

lemma deliver_wire:
  assumes "idle self" and "enc self = ENCODING" and "list_all well_formed ms"
  shows "deliver self (wire ms) = (Inr (), self\<lparr>jobs := jobs self @ ms\<rparr>)"
proof -
  let ?e = "self\<lparr>buf := wire ms, off := length (wire ms), jobs := jobs self @ ms\<rparr>"
  have p: "parse (self\<lparr>buf := wire ms\<rparr>) 0 = parse ?e (length (wire ms))"
    using parse_delivered [OF assms, of "[]"] by simp
  have "siz ?e < 0" "\<not> off ?e < length (buf ?e)"
    using assms(1) by (simp_all add: idle_def)
  then have "turn ?e (length (wire ms)) = (Inr Break, ?e, length (wire ms))"
    by (simp add: turn_def header_def)
  then have "parse ?e (length (wire ms)) = (Inr (), ?e, length (wire ms))"
    by (rule parse_stop)
  with p have q: "parse (self\<lparr>buf := wire ms\<rparr>) 0 = (Inr (), ?e, length (wire ms))"
    by simp
  have "(if 0 < length (wire ms)
         then ?e\<lparr>buf := drop (length (wire ms)) (buf ?e), off := off ?e - length (wire ms)\<rparr>
         else ?e) = self\<lparr>jobs := jobs self @ ms\<rparr>"
    using assms(1) by (cases self) (simp add: idle_def)
  with q show ?thesis
    by (simp add: deliver_def receive_def attempt_def collect_idle [OF assms(1)])
qed

subsection \<open>Round trip\<close>

lemma of_char_less: "(of_char c :: nat) < 256"
proof -
  have "(of_char c :: nat) mod 256 < 256" by simp
  then show ?thesis by (simp only: of_char_mod_256)
qed

lemma str_of_scalar: "list_all scalar (str_of s)"
proof -
  have "scalar (of_char c)" for c :: char
    using of_char_less [of c] unfolding scalar_def surrogate_def by linarith
  then show ?thesis by (simp add: str_of_def list_all_iff)
qed

lemma str_of_no_separator: "CHR '':'' \<notin> set s \<Longrightarrow> 58 \<notin> set (str_of s)"
  by (auto simp: str_of_def of_char_separator)

lemma send_serial_frame:
  assumes "well_formed (cat, cnt self + 1, msg)" and "enc self = ENCODING"
  shows "send_serial self (PyStr cat) (PyStr msg)
         = (Inr (cnt self + 1),
            self\<lparr>cnt := cnt self + 1, io := io self @ frame (cat, cnt self + 1, msg)\<rparr>)"
proof -
  let ?s = "self\<lparr>cnt := cnt self + 1\<rparr>"
  have "enc ?s = ENCODING" using assms(2) by simp
  from send_format_frame [OF assms(1) this] show ?thesis
    by (simp add: send_serial_def)
qed

lemma receive_wire:
  assumes "idle self" and "enc self = ENCODING" and "list_all well_formed ms"
  shows "receive (self\<lparr>io := wire ms\<rparr>) = (Inr (), self\<lparr>jobs := jobs self @ ms\<rparr>)"
proof -
  have "io self = []" using assms(1) by (simp add: idle_def)
  then have "receive (self\<lparr>io := wire ms\<rparr>) = deliver self (wire ms)"
    by (simp add: deliver_def fs_send_def)
  with deliver_wire [OF assms] show ?thesis by simp
qed

subsection \<open>Serial numbers of the messages sent\<close>

text \<open>
  Claim C9.  The counter of a new channel is 0.  \<^verbatim>\<open>send_serial\<close> adds one to the
  counter, whatever happens next, and the value it returns is the new counter; so
  the first auto-numbered send of a new channel returns 1.  \<^verbatim>\<open>send_command\<close> and
  \<^verbatim>\<open>send_event\<close> are calls of \<^verbatim>\<open>send_serial\<close>.  \<^verbatim>\<open>send_result\<close> and \<^verbatim>\<open>send_error\<close>
  leave the counter alone, whatever their arguments; given an integer \<open>k\<close> and a text
  that the default codec can encode, they succeed, change nothing of the channel but
  the transport, and append to it the header \<^verbatim>\<open>@SIZE:\<close> and the contents \<^verbatim>\<open>OK:k:text\<close>
  (respectively \<^verbatim>\<open>ERR:k:text\<close>), where the serial number is the decimal text of the
  \<open>k\<close> of the caller.  Over any list of requests to a new channel (sends of all kinds
  and receive triggers), the serial numbers returned by the auto-numbered sends are
  positive and strictly increasing, hence never used twice.
\<close>

theorem serial_allocation:
  "cnt (init sock e) = 0
   \<and> cnt (snd (send_serial self cat msg)) = cnt self + 1
   \<and> (fst (send_serial self cat msg) = Inr n \<longrightarrow> n = cnt self + 1)
   \<and> (fst (send_serial (init sock e) cat msg) = Inr n \<longrightarrow> n = 1)
   \<and> send_command self msg = send_serial self (PyStr (str_of ''CMD'')) msg
   \<and> send_event self msg = send_serial self (PyStr (str_of ''EVT'')) msg
   \<and> cnt (snd (send_result self num val)) = cnt self
   \<and> cnt (snd (send_error self num val)) = cnt self
   \<and> (enc self = ENCODING \<and> list_all scalar txt \<longrightarrow>
        send_result self (PyInt k) (PyStr txt)
        = (let b = concat (map utf8_char (str_of ''OK'' @ 58 # str_int k @ 58 # txt))
           in (Inr (), self\<lparr>io := io self @ CHR ''@'' # map char_of (digits (length b))
                                       @ CHR '':'' # b\<rparr>))
        \<and> send_error self (PyInt k) (PyStr txt)
        = (let b = concat (map utf8_char (str_of ''ERR'' @ 58 # str_int k @ 58 # txt))
           in (Inr (), self\<lparr>io := io self @ CHR ''@'' # map char_of (digits (length b))
                                       @ CHR '':'' # b\<rparr>)))
   \<and> sorted_wrt (<) (serials (init sock e) rs)
   \<and> (\<forall>k\<in>set (serials (init sock e) rs). 1 \<le> k)"
proof -
  have c0: "cnt (init sock e) = 0" by (simp add: init_def)
  have first: "fst (send_serial (init sock e) cat msg) = Inr n \<longrightarrow> n = 1"
    using send_serial_value [of "init sock e" cat msg n] c0 by simp
  have pos: "\<forall>k\<in>set (serials (init sock e) rs). 1 \<le> k"
    using serials_increasing [of "init sock e" rs] c0 by auto
  have sent: "enc self = ENCODING \<and> list_all scalar txt \<longrightarrow>
        send_result self (PyInt k) (PyStr txt)
        = (let b = concat (map utf8_char (str_of ''OK'' @ 58 # str_int k @ 58 # txt))
           in (Inr (), self\<lparr>io := io self @ CHR ''@'' # map char_of (digits (length b))
                                       @ CHR '':'' # b\<rparr>))
        \<and> send_error self (PyInt k) (PyStr txt)
        = (let b = concat (map utf8_char (str_of ''ERR'' @ 58 # str_int k @ 58 # txt))
           in (Inr (), self\<lparr>io := io self @ CHR ''@'' # map char_of (digits (length b))
                                       @ CHR '':'' # b\<rparr>))"
  proof (intro impI conjI)
    assume a: "enc self = ENCODING \<and> list_all scalar txt"
    have ok: "well_formed (str_of ''OK'', k, txt)"
      using a str_of_scalar [of "''OK''"] by (simp add: str_of_def)
    have err: "well_formed (str_of ''ERR'', k, txt)"
      using a str_of_scalar [of "''ERR''"] by (simp add: str_of_def)
    from a have en: "enc self = ENCODING" by simp
    show "send_result self (PyInt k) (PyStr txt)
        = (let b = concat (map utf8_char (str_of ''OK'' @ 58 # str_int k @ 58 # txt))
           in (Inr (), self\<lparr>io := io self @ CHR ''@'' # map char_of (digits (length b))
                                       @ CHR '':'' # b\<rparr>))"
      using send_format_well_formed [OF ok en] by (simp add: send_result_def body_def Let_def)
    show "send_error self (PyInt k) (PyStr txt)
        = (let b = concat (map utf8_char (str_of ''ERR'' @ 58 # str_int k @ 58 # txt))
           in (Inr (), self\<lparr>io := io self @ CHR ''@'' # map char_of (digits (length b))
                                       @ CHR '':'' # b\<rparr>))"
      using send_format_well_formed [OF err en] by (simp add: send_error_def body_def Let_def)
  qed
  have rest: "cnt (init sock e) = 0
   \<and> cnt (snd (send_serial self cat msg)) = cnt self + 1
   \<and> (fst (send_serial self cat msg) = Inr n \<longrightarrow> n = cnt self + 1)
   \<and> (fst (send_serial (init sock e) cat msg) = Inr n \<longrightarrow> n = 1)
   \<and> send_command self msg = send_serial self (PyStr (str_of ''CMD'')) msg
   \<and> send_event self msg = send_serial self (PyStr (str_of ''EVT'')) msg
   \<and> cnt (snd (send_result self num val)) = cnt self
   \<and> cnt (snd (send_error self num val)) = cnt self"
    using c0 first send_serial_cnt [of self cat msg] send_serial_value [of self cat msg n]
    by (simp add: send_command_def send_event_def send_result_def send_error_def
        send_format_cnt)
  from rest sent pos serials_increasing [of "init sock e" rs] show ?thesis by blast
qed

theorem serial_allocation_witness:
  "fst (send_serial (init [] ENCODING) (PyStr (str_of ''CMD'')) (PyStr (str_of ''go''))) = Inr 1
   \<and> send_result (init [] ENCODING) (PyInt 7) (PyStr (str_of ''b''))
     = (Inr (), (init [] ENCODING)\<lparr>io := ''@6:OK:7:b''\<rparr>)
   \<and> send_error (init [] ENCODING) (PyInt 7) (PyStr (str_of ''b''))
     = (Inr (), (init [] ENCODING)\<lparr>io := ''@7:ERR:7:b''\<rparr>)
   \<and> serials (init [] ENCODING)
        [Command (PyStr (str_of ''a'')), Result (PyInt 7) (PyStr (str_of ''b'')),
         Event (PyInt 0), Event (PyStr (str_of ''c''))] = [1, 3]
   \<and> sorted_wrt (<) (serials (init [] ENCODING)
        [Command (PyStr (str_of ''a'')), Result (PyInt 7) (PyStr (str_of ''b'')),
         Event (PyInt 0), Event (PyStr (str_of ''c''))])
   \<and> list_all (\<lambda>k. 1 \<le> k) (serials (init [] ENCODING)
        [Command (PyStr (str_of ''a'')), Result (PyInt 7) (PyStr (str_of ''b'')),
         Event (PyInt 0), Event (PyStr (str_of ''c''))])"
proof -
  have ev: "serials (init [] ENCODING)
        [Command (PyStr (str_of ''a'')), Result (PyInt 7) (PyStr (str_of ''b'')),
         Event (PyInt 0), Event (PyStr (str_of ''c''))] = [1, 3]"
    by (simp add: send_defs digits.simps init_def)
  have run: "fst (send_serial (init [] ENCODING) (PyStr (str_of ''CMD'')) (PyStr (str_of ''go'')))
             = Inr 1"
    by (simp add: send_defs digits.simps init_def)
  have en: "enc (init [] ENCODING) = ENCODING" by (simp add: init_def)
  have sc: "list_all scalar (str_of ''b'')" by (rule str_of_scalar)
  have b1: "CHR ''@'' # map char_of (digits (length (concat (map utf8_char
              (str_of ''OK'' @ 58 # str_int 7 @ 58 # str_of ''b''))))) @ CHR '':''
              # concat (map utf8_char (str_of ''OK'' @ 58 # str_int 7 @ 58 # str_of ''b''))
            = ''@6:OK:7:b''"
    by (simp add: send_defs digits.simps char_of_def bit_simps)
  have b2: "CHR ''@'' # map char_of (digits (length (concat (map utf8_char
              (str_of ''ERR'' @ 58 # str_int 7 @ 58 # str_of ''b''))))) @ CHR '':''
              # concat (map utf8_char (str_of ''ERR'' @ 58 # str_int 7 @ 58 # str_of ''b''))
            = ''@7:ERR:7:b''"
    by (simp add: send_defs digits.simps char_of_def bit_simps)
  from serial_allocation [of "[]" ENCODING "init [] ENCODING" "PyStr (str_of ''CMD'')"
      "PyStr (str_of ''go'')" 1 "PyInt 7" "PyStr []" "str_of ''b''" 7
      "[Command (PyStr (str_of ''a'')), Result (PyInt 7) (PyStr (str_of ''b'')),
         Event (PyInt 0), Event (PyStr (str_of ''c''))]"] ev run en sc b1 b2
  show ?thesis by (simp add: list_all_iff Let_def init_def)
qed

subsection \<open>One message sent and received\<close>

text \<open>
  Claim C1, as amended.  On a channel with the default encoding whose transport and
  buffer are empty and which awaits a header, for every category without separator,
  every integer that is not a boolean and every payload (category and payload being
  texts that the codec can encode, that is, texts of Unicode scalar values),
  \<^verbatim>\<open>send_format\<close> succeeds, and one call of \<^verbatim>\<open>_receive\<close> on the bytes written returns
  normally and has appended exactly the triple sent to the queue of jobs; nothing
  else of the channel changes.
\<close>

theorem round_trip:
  assumes "idle self" and "enc self = ENCODING"
    and "58 \<notin> set cat" and "list_all scalar cat" and "list_all scalar msg"
  shows "\<exists>self1. send_format self (PyStr cat) (PyInt num) (PyStr msg) = (Inr (), self1)
           \<and> receive self1 = (Inr (), self\<lparr>jobs := jobs self @ [(cat, num, msg)]\<rparr>)"
proof -
  have wf: "well_formed (cat, num, msg)" using assms(3,4,5) by simp
  have wfl: "list_all well_formed [(cat, num, msg)]" using assms(3,4,5) by simp
  have io: "io self = []" using assms(1) by (simp add: idle_def)
  have "send_format self (PyStr cat) (PyInt num) (PyStr msg)
        = (Inr (), self\<lparr>io := wire [(cat, num, msg)]\<rparr>)"
    using send_format_frame [OF wf assms(2)] io by (simp add: wire_Cons wire_Nil)
  moreover have "receive (self\<lparr>io := wire [(cat, num, msg)]\<rparr>)
        = (Inr (), self\<lparr>jobs := jobs self @ [(cat, num, msg)]\<rparr>)"
    using assms(1,2) wfl by (rule receive_wire)
  ultimately show ?thesis by blast
qed

lemma idle_init: "idle (init [] e)"
  by (simp add: idle_def init_def)

theorem round_trip_witness:
  "\<exists>self1. send_format (init [] ENCODING) (PyStr (str_of ''CMD'')) (PyInt (- 42))
              (PyStr [104, 233, 8364, 58, 128512]) = (Inr (), self1)
     \<and> receive self1
       = (Inr (), (init [] ENCODING)\<lparr>jobs := [(str_of ''CMD'', - 42, [104, 233, 8364, 58, 128512])]\<rparr>)"
proof -
  have "enc (init [] ENCODING) = ENCODING" by (simp add: init_def)
  moreover have "58 \<notin> set (str_of ''CMD'')" by (simp add: str_of_def)
  moreover have "list_all scalar [104, 233, 8364, 58, 128512]"
    by (simp add: scalar_def surrogate_def)
  ultimately show ?thesis
    using round_trip [OF idle_init, of ENCODING "str_of ''CMD''" "[104, 233, 8364, 58, 128512]" "- 42"]
      str_of_scalar [of "''CMD''"]
    by (simp add: init_def)
qed

text \<open>Claim C1 as it is stated fails for a serial number that is a boolean, which
  \<^verbatim>\<open>send_format\<close> takes as an integer: \<^verbatim>\<open>str(True)\<close> is \<^verbatim>\<open>True\<close>, the bytes
  \<^verbatim>\<open>@8:A:True:x\<close> are written, and on them \<^verbatim>\<open>int("True")\<close> raises \<^verbatim>\<open>ValueError\<close> in
  \<^verbatim>\<open>_receive\<close>, which makes no job.\<close>

theorem round_trip_bool_serial:
  "isinstance_int (PyBool True)
   \<and> send_format (init [] ENCODING) (PyStr (str_of ''A'')) (PyBool True) (PyStr (str_of ''x''))
     = (Inr (), (init [] ENCODING)\<lparr>io := ''@8:A:True:x''\<rparr>)
   \<and> pieces (str_of ''A:True:x'') = Inl (ValueError ''invalid literal for int() with base 10'')
   \<and> receive ((init [] ENCODING)\<lparr>io := ''@8:A:True:x''\<rparr>)
     = (Inl (AttributeError ''disconnect''),
        (init [] ENCODING)\<lparr>buf := ''@8:A:True:x'', off := 11\<rparr>)
   \<and> jobs (snd (receive ((init [] ENCODING)\<lparr>io := ''@8:A:True:x''\<rparr>))) = []"
proof -
  have s: "send_format (init [] ENCODING) (PyStr (str_of ''A'')) (PyBool True) (PyStr (str_of ''x''))
     = (Inr (), (init [] ENCODING)\<lparr>io := ''@8:A:True:x''\<rparr>)"
    by (simp add: send_defs digits.simps char_of_def bit_simps init_def)
  have p: "pieces (str_of ''A:True:x'') = Inl (ValueError ''invalid literal for int() with base 10'')"
    by (simp add: pieces_defs int_defs)
  have d: "decode ENCODING ''A:True:x'' = Inr (str_of ''A:True:x'')"
    by (simp add: decode_def ENCODING_def str_of_def cons_text_def)
  have r: "receive ((init [] ENCODING)\<lparr>io := ''@8:A:True:x''\<rparr>)
     = (Inl (AttributeError ''disconnect''),
        (init [] ENCODING)\<lparr>buf := ''@8:A:True:x'', off := 11\<rparr>)"
    apply (simp add: receive_def attempt_def collect_eq init_def)
    apply (subst parse.simps)
    apply (simp add: turn_def header_def contents_def digit_byte_def d p disconnect_def)
    done
  from s p r show ?thesis by (simp add: init_def)
qed

subsection \<open>Several messages in one call\<close>

lemma frame_evt: "frame (str_of ''EVT'', 1, str_of ''hi'') = ''@8:EVT:1:hi''"
  by (simp add: send_defs digits.simps char_of_def bit_simps init_def)

lemma frame_cmd: "frame (str_of ''CMD'', 2, str_of ''go'') = ''@8:CMD:2:go''"
  by (simp add: send_defs digits.simps char_of_def bit_simps init_def)

lemma well_formed_str_of:
  "CHR '':'' \<notin> set cat \<Longrightarrow> well_formed (str_of cat, num, str_of msg)"
  by (simp add: str_of_scalar str_of_no_separator)

lemma deliver_outcome:
  assumes "idle self"
    and "parse (self\<lparr>buf := d\<rparr>) 0 = (r, s1, c1)"
  shows "deliver self d
         = (case r of
              Inl e \<Rightarrow> (Inl (AttributeError ''disconnect''), s1)
            | Inr u \<Rightarrow> (Inr (), if 0 < c1
                                 then s1\<lparr>buf := drop c1 (buf s1), off := off s1 - c1\<rparr>
                                 else s1))"
  using assms(2)
  by (cases r)
    (simp_all add: deliver_def receive_def attempt_def disconnect_def collect_idle [OF assms(1)])

text \<open>
  Claim C5.  When the transport of an idle channel with the default encoding holds
  the bytes of a list of messages, of any length and so of two or more, one call of
  \<^verbatim>\<open>_receive\<close> returns normally and has appended all of them to the queue, in their
  order.  On a new channel, \<^verbatim>\<open>send_event("hi")\<close> returns 1, \<^verbatim>\<open>send_command("go")\<close>
  then returns 2, and one call of \<^verbatim>\<open>_receive\<close> then leaves the two jobs
  \<^verbatim>\<open>("EVT", 1, "hi")\<close> and \<^verbatim>\<open>("CMD", 2, "go")\<close> in the queue, in that order.
\<close>

theorem batch_decode:
  "(idle self \<and> enc self = ENCODING \<and> list_all well_formed ms
      \<longrightarrow> deliver self (wire ms) = (Inr (), self\<lparr>jobs := jobs self @ ms\<rparr>))
   \<and> (\<exists>s1 s2. send_event (init [] ENCODING) (PyStr (str_of ''hi'')) = (Inr 1, s1)
         \<and> send_command s1 (PyStr (str_of ''go'')) = (Inr 2, s2)
         \<and> receive s2
           = (Inr (), (init [] ENCODING)\<lparr>cnt := 2,
                jobs := [(str_of ''EVT'', 1, str_of ''hi''), (str_of ''CMD'', 2, str_of ''go'')]\<rparr>))"
proof (intro conjI impI)
  assume "idle self \<and> enc self = ENCODING \<and> list_all well_formed ms"
  then show "deliver self (wire ms) = (Inr (), self\<lparr>jobs := jobs self @ ms\<rparr>)"
    by (simp add: deliver_wire)
next
  let ?s0 = "init [] ENCODING"
  let ?m1 = "(str_of ''EVT'', 1 :: int, str_of ''hi'')"
  let ?m2 = "(str_of ''CMD'', 2 :: int, str_of ''go'')"
  let ?s1 = "?s0\<lparr>cnt := 1, io := frame ?m1\<rparr>"
  let ?s2 = "?s0\<lparr>cnt := 2, io := wire [?m1, ?m2]\<rparr>"
  have w1: "well_formed ?m1" and w2: "well_formed ?m2"
    by (rule well_formed_str_of, simp)+
  have e0: "enc ?s0 = ENCODING" and c0: "cnt ?s0 = 0" and i0: "io ?s0 = []"
    by (simp_all add: init_def)
  have "well_formed (str_of ''EVT'', cnt ?s0 + 1, str_of ''hi'')"
    using w1 c0 by simp
  from send_serial_frame [OF this e0]
  have a: "send_event ?s0 (PyStr (str_of ''hi'')) = (Inr 1, ?s1)"
    by (simp add: send_event_def c0 i0)
  have e1: "enc ?s1 = ENCODING" and c1: "cnt ?s1 = 1" and i1: "io ?s1 = frame ?m1"
    by (simp_all add: init_def)
  have "well_formed (str_of ''CMD'', cnt ?s1 + 1, str_of ''go'')"
    using w2 by (simp add: c1)
  from send_serial_frame [OF this e1]
  have b: "send_command ?s1 (PyStr (str_of ''go'')) = (Inr 2, ?s2)"
    by (simp add: send_command_def c1 i1 wire_Cons wire_Nil)
  have "idle (?s0\<lparr>cnt := 2\<rparr>)" "enc (?s0\<lparr>cnt := 2\<rparr>) = ENCODING"
    by (simp_all add: idle_def init_def)
  then have "receive (?s0\<lparr>cnt := 2\<rparr>\<lparr>io := wire [?m1, ?m2]\<rparr>)
        = (Inr (), ?s0\<lparr>cnt := 2\<rparr>\<lparr>jobs := jobs (?s0\<lparr>cnt := 2\<rparr>) @ [?m1, ?m2]\<rparr>)"
    by (rule receive_wire) (simp add: w1 w2 del: well_formed.simps)
  then have c: "receive ?s2 = (Inr (), ?s0\<lparr>cnt := 2, jobs := [?m1, ?m2]\<rparr>)"
    by (simp add: init_def)
  from a b c
  show "\<exists>s1 s2. send_event ?s0 (PyStr (str_of ''hi'')) = (Inr 1, s1)
         \<and> send_command s1 (PyStr (str_of ''go'')) = (Inr 2, s2)
         \<and> receive s2 = (Inr (), ?s0\<lparr>cnt := 2, jobs := [?m1, ?m2]\<rparr>)"
    by blast
qed

theorem batch_decode_witness:
  "wire [(str_of ''EVT'', 1, str_of ''hi''), (str_of ''CMD'', 2, str_of ''go'')]
     = ''@8:EVT:1:hi@8:CMD:2:go''
   \<and> deliver (init [] ENCODING) ''@8:EVT:1:hi@8:CMD:2:go''
     = (Inr (), (init [] ENCODING)\<lparr>jobs :=
          [(str_of ''EVT'', 1, str_of ''hi''), (str_of ''CMD'', 2, str_of ''go'')]\<rparr>)"
proof -
  have w: "wire [(str_of ''EVT'', 1, str_of ''hi''), (str_of ''CMD'', 2, str_of ''go'')]
           = ''@8:EVT:1:hi@8:CMD:2:go''"
    by (simp add: wire_Cons wire_Nil frame_evt frame_cmd del: frame.simps)
  have "list_all well_formed
          [(str_of ''EVT'', 1, str_of ''hi''), (str_of ''CMD'', 2, str_of ''go'')]"
    by (simp add: well_formed_str_of del: well_formed.simps)
  with batch_decode [of "init [] ENCODING"
      "[(str_of ''EVT'', 1, str_of ''hi''), (str_of ''CMD'', 2, str_of ''go'')]"]
    idle_init [of ENCODING]
  have "deliver (init [] ENCODING)
          (wire [(str_of ''EVT'', 1, str_of ''hi''), (str_of ''CMD'', 2, str_of ''go'')])
        = (Inr (), (init [] ENCODING)\<lparr>jobs :=
          [(str_of ''EVT'', 1, str_of ''hi''), (str_of ''CMD'', 2, str_of ''go'')]\<rparr>)"
    by (simp add: init_def)
  with w show ?thesis by (simp only:)
qed


text \<open>
  Claim C10.  The transport of an idle channel holds the bytes of a list of messages
  followed by further bytes.  If the call of \<^verbatim>\<open>_receive\<close> raises, then the channel it
  leaves has the messages in its queue, after the jobs that were there (and before
  any job decoded later in the same call); its buffer holds all the bytes, none
  dropped; and its offset is at or beyond the end of the messages.  In particular,
  when the further bytes do not begin with the marker, the loop raises
  \<^verbatim>\<open>BadMessage("Missing begin message marker")\<close>, the call raises, and the channel is
  left with exactly the messages appended and the offset at their end.
\<close>

theorem receive_not_atomic:
  assumes "idle self" and "enc self = ENCODING" and "list_all well_formed ms"
  shows "(deliver self (wire ms @ rest) = (Inl e, self1)
            \<longrightarrow> prefix (jobs self @ ms) (jobs self1) \<and> buf self1 = wire ms @ rest
                \<and> length (wire ms) \<le> off self1)
       \<and> (rest \<noteq> [] \<and> hd rest \<noteq> CHR ''@''
            \<longrightarrow> attempt (self\<lparr>io := wire ms @ rest\<rparr>)
                  = (Inl (BadMessage ''Missing begin message marker''),
                     self\<lparr>buf := wire ms @ rest, off := length (wire ms),
                          jobs := jobs self @ ms\<rparr>)
                \<and> deliver self (wire ms @ rest)
                  = (Inl (AttributeError ''disconnect''),
                     self\<lparr>buf := wire ms @ rest, off := length (wire ms),
                          jobs := jobs self @ ms\<rparr>))"
proof -
  define d where "d = wire ms @ rest"
  define s where
    "s = self\<lparr>buf := d, off := length (wire ms), jobs := jobs self @ ms\<rparr>"
  have p: "parse (self\<lparr>buf := d\<rparr>) 0 = parse s (length (wire ms))"
    unfolding d_def s_def using assms by (rule parse_delivered)
  have first: "prefix (jobs self @ ms) (jobs self1) \<and> buf self1 = d
               \<and> length (wire ms) \<le> off self1"
    if del: "deliver self d = (Inl e, self1)"
  proof -
    obtain r s1 c1 where q: "parse s (length (wire ms)) = (r, s1, c1)"
      by (cases "parse s (length (wire ms))")
    from deliver_outcome [OF assms(1), of d r s1 c1] p q del
    have "s1 = self1" by (cases r) simp_all
    with parse_grows [OF q] parse_frame [OF q] show ?thesis
      by (simp add: s_def)
  qed
  have second: "attempt (self\<lparr>io := d\<rparr>) = (Inl (BadMessage ''Missing begin message marker''), s)
                \<and> deliver self d = (Inl (AttributeError ''disconnect''), s)"
    if bad: "rest \<noteq> [] \<and> hd rest \<noteq> CHR ''@''"
  proof -
    have z: "siz s < 0" using assms(1) by (simp add: s_def idle_def)
    have l: "off s < length (buf s)" using bad by (simp add: s_def d_def)
    have "buf s ! off s = hd rest"
      using bad by (simp add: s_def d_def nth_append hd_conv_nth)
    with bad have "buf s ! off s \<noteq> CHR ''@''" by simp
    with z l have "turn s (length (wire ms))
        = (Inl (BadMessage ''Missing begin message marker''), s, length (wire ms))"
      by (simp add: turn_def header_def of_char_marker)
    then have "parse s (length (wire ms))
        = (Inl (BadMessage ''Missing begin message marker''), s, length (wire ms))"
      by (rule parse_raise)
    with p have q: "parse (self\<lparr>buf := d\<rparr>) 0
        = (Inl (BadMessage ''Missing begin message marker''), s, length (wire ms))"
      by simp
    have "io self = []" using assms(1) by (simp add: idle_def)
    then have "self\<lparr>io := d\<rparr> = self\<lparr>io := fs_send (io self) d\<rparr>"
      by (simp add: fs_send_def)
    then have "attempt (self\<lparr>io := d\<rparr>)
               = (Inl (BadMessage ''Missing begin message marker''), s)"
      using q by (simp add: attempt_def collect_idle [OF assms(1)])
    moreover from deliver_outcome [OF assms(1) q]
    have "deliver self d = (Inl (AttributeError ''disconnect''), s)" by simp
    ultimately show ?thesis by simp
  qed
  from first second show ?thesis
    unfolding d_def s_def by blast
qed

theorem receive_not_atomic_witness:
  "deliver (init [] ENCODING) ''@8:EVT:1:hi@8:CMD:2:go@x:''
   = (Inl (AttributeError ''disconnect''),
      (init [] ENCODING)\<lparr>buf := ''@8:EVT:1:hi@8:CMD:2:go@x:'', off := 22,
         jobs := [(str_of ''EVT'', 1, str_of ''hi''), (str_of ''CMD'', 2, str_of ''go'')]\<rparr>)
   \<and> deliver (init [] ENCODING) ''@8:EVT:1:hi@8:CMD:2:gox''
   = (Inl (AttributeError ''disconnect''),
      (init [] ENCODING)\<lparr>buf := ''@8:EVT:1:hi@8:CMD:2:gox'', off := 22,
         jobs := [(str_of ''EVT'', 1, str_of ''hi''), (str_of ''CMD'', 2, str_of ''go'')]\<rparr>)"
proof -
  let ?ms = "[(str_of ''EVT'', 1, str_of ''hi''), (str_of ''CMD'', 2, str_of ''go'')]"
  have w: "wire ?ms = ''@8:EVT:1:hi@8:CMD:2:go''"
    by (simp add: wire_Cons wire_Nil frame_evt frame_cmd del: frame.simps)
  have wf: "list_all well_formed ?ms"
    by (simp add: well_formed_str_of del: well_formed.simps)
  have e: "enc (init [] ENCODING) = ENCODING" by (simp add: init_def)
  have j: "jobs (init [] ENCODING) = []" by (simp add: init_def)
  have b: "deliver (init [] ENCODING) (wire ?ms @ ''x'')
           = (Inl (AttributeError ''disconnect''),
              (init [] ENCODING)\<lparr>buf := wire ?ms @ ''x'', off := length (wire ?ms),
                 jobs := jobs (init [] ENCODING) @ ?ms\<rparr>)"
    using receive_not_atomic [OF idle_init e wf, of "''x''"] by simp
  obtain r s1 where d: "deliver (init [] ENCODING) (wire ?ms @ ''@x:'') = (r, s1)"
    by (cases "deliver (init [] ENCODING) (wire ?ms @ ''@x:'')")
  have p: "parse ((init [] ENCODING)\<lparr>buf := wire ?ms @ ''@x:''\<rparr>) 0
        = (Inl (BadMessage ''Expecting digits or separator''),
           (init [] ENCODING)\<lparr>buf := wire ?ms @ ''@x:'', off := 22, jobs := ?ms\<rparr>, 22)"
    apply (subst parse_delivered [OF idle_init e wf])
    apply (simp add: w j)
    apply (rule parse_raise)
    apply (simp add: turn_def header_def init_def)
    done
  from deliver_outcome [OF idle_init p]
  have a: "deliver (init [] ENCODING) (wire ?ms @ ''@x:'')
           = (Inl (AttributeError ''disconnect''),
              (init [] ENCODING)\<lparr>buf := wire ?ms @ ''@x:'', off := 22, jobs := ?ms\<rparr>)"
    by simp
  from receive_not_atomic [OF idle_init e wf, of "''@x:''" "AttributeError ''disconnect''"
      "(init [] ENCODING)\<lparr>buf := wire ?ms @ ''@x:'', off := 22, jobs := ?ms\<rparr>"] a
  have "prefix (jobs (init [] ENCODING) @ ?ms)
          (jobs ((init [] ENCODING)\<lparr>buf := wire ?ms @ ''@x:'', off := 22, jobs := ?ms\<rparr>))"
    by simp
  with a b show ?thesis by (simp add: w j)
qed

subsection \<open>The loop when further bytes arrive\<close>

lemma scan_size_append:
  "scan_size o' i sz bs = Inl e \<Longrightarrow> scan_size o' i sz (bs @ x) = Inl e"
  "scan_size o' i sz bs = Inr (Some r) \<Longrightarrow> scan_size o' i sz (bs @ x) = Inr (Some r)"
proof (induction bs arbitrary: i sz)
  case Nil
  { case 1 then show ?case by simp }
  { case 2 then show ?case by simp }
next
  case (Cons b bs)
  { case 1
    show ?case
    proof (cases "ZERO \<le> of_char b \<and> of_char b \<le> NINE")
      case True
      with "1" have "scan_size o' (i + 1) (10 * sz + (of_char b - ZERO)) bs = Inl e" by simp
      from Cons.IH(1) [OF this] True show ?thesis by simp
    next
      case False
      with "1" show ?thesis by (auto split: if_splits)
    qed }
  { case 2
    show ?case
    proof (cases "ZERO \<le> of_char b \<and> of_char b \<le> NINE")
      case True
      with "2" have "scan_size o' (i + 1) (10 * sz + (of_char b - ZERO)) bs = Inr (Some r)"
        by simp
      from Cons.IH(2) [OF this] True show ?thesis by simp
    next
      case False
      with "2" show ?thesis by (auto split: if_splits)
    qed }
qed

lemma header_cases:
  assumes "header self = (r, s1)"
  obtains (marker) "r = Inl (BadMessage ''Missing begin message marker'')" "s1 = self"
      "siz self < 0" "off self < length (buf self)" "of_char (buf self ! off self) \<noteq> BEGIN"
  | (scan) e where "r = Inl e" "s1 = self" "siz self < 0" "off self < length (buf self)"
      "of_char (buf self ! off self) = BEGIN"
      "scan_size (off self) (off self + 1) 0 (drop (off self + 1) (buf self)) = Inl e"
  | (wait) "r = Inr Break" "s1 = self" "siz self < 0"
  | (known) "r = Inr Next" "s1 = self" "0 \<le> siz self"
  | (parsed) i n where "r = Inr Next" "s1 = self\<lparr>off := i, siz := int n\<rparr>" "siz self < 0"
      "off self < length (buf self)" "of_char (buf self ! off self) = BEGIN"
      "scan_size (off self) (off self + 1) 0 (drop (off self + 1) (buf self)) = Inr (Some (i, n))"
  using assms
  by (auto simp: header_def Let_def split: if_splits sum.splits option.splits)

lemma header_append:
  assumes "header self = (r, s1)" and "r \<noteq> Inr Break"
  shows "header (append_buf self x) = (r, append_buf s1 x)"
  using assms(1)
proof (cases rule: header_cases)
  case marker
  then show ?thesis by (simp add: header_def append_buf_def nth_append)
next
  case (scan e)
  have "drop (off self + 1) (buf self @ x) = drop (off self + 1) (buf self) @ x"
    using scan(4) by simp
  with scan scan_size_append(1) [OF scan(6), of x] show ?thesis
    by (simp add: header_def append_buf_def nth_append)
next
  case wait
  with assms(2) show ?thesis by simp
next
  case known
  then show ?thesis by (simp add: header_def append_buf_def)
next
  case (parsed i n)
  have "drop (off self + 1) (buf self @ x) = drop (off self + 1) (buf self) @ x"
    using parsed(4) by simp
  with parsed scan_size_append(2) [OF parsed(6), of x] show ?thesis
    by (simp add: header_def append_buf_def nth_append)
qed

lemma header_next_siz:
  assumes "header self = (Inr Next, s1)"
  shows "0 \<le> siz s1"
  using assms by (cases rule: header_cases) simp_all

lemma header_break:
  assumes "header self = (Inr Break, s1)"
  shows "s1 = self"
  using assms by (cases rule: header_cases) simp_all

lemma contents_break:
  assumes "contents self c = (Inr Break, s1, c1)"
  shows "s1 = self \<and> c1 = c"
  using assms
  by (auto simp: contents_def Let_def split: if_splits sum.splits)

lemma contents_append:
  assumes "contents self c = (r, s1, c1)" and "r \<noteq> Inr Break" and "0 \<le> siz self"
  shows "contents (append_buf self x) c = (r, append_buf s1 x, c1)"
proof -
  from assms(1,2) have l: "\<not> int (length (buf self)) < int (off self) + siz self"
    by (auto simp: contents_def split: if_splits)
  then have l': "\<not> int (length (buf self @ x)) < int (off self) + siz self"
    by simp
  from l assms(3) have "off self + nat (siz self) \<le> length (buf self)" by linarith
  then have t: "take (nat (siz self)) (drop (off self) (buf self @ x))
                = take (nat (siz self)) (drop (off self) (buf self))"
    by simp
  show ?thesis
    using assms(1) l l'
    by (auto simp: contents_def append_buf_def t push_job_def Let_def split: sum.splits)
qed

lemma header_known: "0 \<le> siz self \<Longrightarrow> header self = (Inr Next, self)"
  by (simp add: header_def)

lemma turn_append:
  assumes "turn self c = (r, s1, c1)" and "r \<noteq> Inr Break"
  shows "turn (append_buf self x) c = (r, append_buf s1 x, c1)"
proof -
  obtain rh sh where h: "header self = (rh, sh)" by (cases "header self")
  show ?thesis
  proof (cases rh)
    case (Inl e)
    with h assms(1) have "r = Inl e" "s1 = sh" "c1 = c" by (simp_all add: turn_def)
    with header_append [OF h, of x] Inl show ?thesis by (simp add: turn_def)
  next
    case (Inr f)
    show ?thesis
    proof (cases f)
      case Break
      with Inr h assms show ?thesis by (simp add: turn_def)
    next
      case Next
      with Inr h assms(1) have c: "contents sh c = (r, s1, c1)" by (simp add: turn_def)
      from h Inr Next have "0 \<le> siz sh" by (simp add: header_next_siz)
      with c assms(2) have "contents (append_buf sh x) c = (r, append_buf s1 x, c1)"
        by (rule contents_append)
      with header_append [OF h, of x] Inr Next show ?thesis by (simp add: turn_def)
    qed
  qed
qed

lemma turn_append_break:
  assumes "turn self c = (Inr Break, s1, c1)"
  shows "turn (append_buf self x) c = turn (append_buf s1 x) c1"
proof -
  obtain rh sh where h: "header self = (rh, sh)" by (cases "header self")
  show ?thesis
  proof (cases rh)
    case (Inl e)
    with h assms show ?thesis by (simp add: turn_def)
  next
    case (Inr f)
    show ?thesis
    proof (cases f)
      case Break
      with Inr h assms header_break [of self sh] show ?thesis by (simp add: turn_def)
    next
      case Next
      with Inr h assms have c: "contents sh c = (Inr Break, s1, c1)" by (simp add: turn_def)
      then have e: "s1 = sh" "c1 = c" using contents_break by blast+
      from h Inr Next have z: "0 \<le> siz sh" by (simp add: header_next_siz)
      then have "0 \<le> siz (append_buf sh x)" by (simp add: append_buf_def)
      then have "header (append_buf sh x) = (Inr Next, append_buf sh x)" by (rule header_known)
      then have "turn (append_buf sh x) c = contents (append_buf sh x) c" by (simp add: turn_def)
      moreover from header_append [OF h, of x] Inr Next
      have "turn (append_buf self x) c = contents (append_buf sh x) c" by (simp add: turn_def)
      ultimately show ?thesis using e by simp
    qed
  qed
qed

lemma parse_unfold:
  "parse self c = (case turn self c of
        (Inl e, self1, consumed1) \<Rightarrow> (Inl e, self1, consumed1)
      | (Inr Break, self1, consumed1) \<Rightarrow> (Inr (), self1, consumed1)
      | (Inr Next, self1, consumed1) \<Rightarrow> parse self1 consumed1)"
  by (rule parse.simps)

lemma parse_append:
  "parse (append_buf self x) c
   = (case parse self c of
        (Inl e, s1, c1) \<Rightarrow> (Inl e, append_buf s1 x, c1)
      | (Inr u, s1, c1) \<Rightarrow> parse (append_buf s1 x) c1)"
proof (induction self c rule: parse.induct)
  case (1 self consumed)
  obtain rt st ct where t: "turn self consumed = (rt, st, ct)" by (cases "turn self consumed")
  show ?case
  proof (cases rt)
    case (Inl e)
    with t have "parse self consumed = (Inl e, st, ct)" by (simp add: parse_raise)
    moreover from turn_append [OF t, of x] Inl
    have "parse (append_buf self x) consumed = (Inl e, append_buf st x, ct)"
      by (simp add: parse_raise)
    ultimately show ?thesis by simp
  next
    case (Inr f)
    show ?thesis
    proof (cases f)
      case Break
      with Inr t have p: "parse self consumed = (Inr (), st, ct)" by (simp add: parse_stop)
      from turn_append_break [of self consumed st ct x] t Inr Break
      have "turn (append_buf self x) consumed = turn (append_buf st x) ct" by simp
      then have "parse (append_buf self x) consumed = parse (append_buf st x) ct"
        by (simp only: parse_unfold [of "append_buf self x"] parse_unfold [of "append_buf st x"])
      with p show ?thesis by simp
    next
      case Next
      with Inr t have p: "parse self consumed = parse st ct" by (simp add: parse_next)
      from turn_append [OF t, of x] Inr Next
      have "parse (append_buf self x) consumed = parse (append_buf st x) ct"
        by (simp add: parse_next)
      with "1.IH" [OF t [symmetric]] Inr Next p
      show ?thesis by simp
    qed
  qed
qed

subsection \<open>The loop on a compacted buffer\<close>

lemma scan_size_shift:
  assumes "k \<le> o'" and "k \<le> i"
  shows "scan_size (o' - k) (i - k) sz bs
         = (case scan_size o' i sz bs of
              Inl e \<Rightarrow> Inl e
            | Inr None \<Rightarrow> Inr None
            | Inr (Some (i', n)) \<Rightarrow> Inr (Some (i' - k, n)))"
  using assms(2)
proof (induction bs arbitrary: i sz)
  case Nil
  then show ?case by simp
next
  case (Cons b bs)
  have s: "i + 1 - k = i - k + 1" using Cons.prems by simp
  have "k \<le> i + 1" using Cons.prems by simp
  from Cons.IH [OF this, of "10 * sz + (of_char b - ZERO)"]
  have ih: "scan_size (o' - k) (i - k + 1) (10 * sz + (of_char b - ZERO)) bs
         = (case scan_size o' (i + 1) (10 * sz + (of_char b - ZERO)) bs of
              Inl e \<Rightarrow> Inl e
            | Inr None \<Rightarrow> Inr None
            | Inr (Some (i', n)) \<Rightarrow> Inr (Some (i' - k, n)))"
    by (simp only: s)
  have c: "(i - k \<le> o' - k + 1) = (i \<le> o' + 1)"
    using assms(1) Cons.prems by linarith
  show ?case
  proof (cases "48 \<le> (of_char b :: nat) \<and> (of_char b :: nat) \<le> 57")
    case True
    with ih show ?thesis by simp
  next
    case False
    with c s show ?thesis by auto
  qed
qed

lemma header_compact:
  assumes "k \<le> off self" and "off self \<le> length (buf self)"
  shows "header (compact self k) = (case header self of (r, s1) \<Rightarrow> (r, compact s1 k))"
proof -
  obtain r s1 where h: "header self = (r, s1)" by (cases "header self")
  have len: "(off self - k < length (buf self) - k) = (off self < length (buf self))"
    using assms by linarith
  have nth: "off self < length (buf self) \<Longrightarrow> drop k (buf self) ! (off self - k) = buf self ! off self"
    using assms by simp
  have dr: "drop (off self - k + 1) (drop k (buf self)) = drop (off self + 1) (buf self)"
    using assms by simp
  have sc: "scan_size (off self - k) (off self - k + 1) 0 (drop (off self + 1) (buf self))
        = (case scan_size (off self) (off self + 1) 0 (drop (off self + 1) (buf self)) of
              Inl e \<Rightarrow> Inl e
            | Inr None \<Rightarrow> Inr None
            | Inr (Some (i', n)) \<Rightarrow> Inr (Some (i' - k, n)))"
  proof -
    have e: "off self + 1 - k = off self - k + 1" using assms(1) by simp
    have "k \<le> off self + 1" using assms(1) by simp
    from scan_size_shift [OF assms(1) this, of 0 "drop (off self + 1) (buf self)"]
    show ?thesis by (simp only: e)
  qed
  from h show ?thesis
  proof (cases rule: header_cases)
    case marker
    with h len nth show ?thesis by (simp add: header_def compact_def)
  next
    case (scan e)
    with h len nth dr sc show ?thesis by (simp add: header_def compact_def)
  next
    case wait
    with h show ?thesis
      using len nth dr sc
      by (auto simp: header_def compact_def Let_def split: if_splits sum.splits option.splits)
  next
    case known
    with h show ?thesis by (simp add: header_def compact_def)
  next
    case (parsed i n)
    with h len nth dr sc show ?thesis by (simp add: header_def compact_def)
  qed
qed

lemma contents_compact:
  assumes "k \<le> off self" and "off self \<le> length (buf self)"
  shows "contents (compact self k) (c - k)
         = (case contents self c of (r, s1, c1) \<Rightarrow> (r, compact s1 k, c1 - k))"
proof -
  define m where
    "m = (if siz self > 0
          then decode (enc self) (take (nat (siz self)) (drop (off self) (buf self)))
          else Inr [])"
  define s1 where "s1 = self\<lparr>off := off self + nat (siz self), siz := - 1\<rparr>"
  have len: "(int (length (buf (compact self k))) < int (off (compact self k)) + siz (compact self k))
             = (int (length (buf self)) < int (off self) + siz self)"
    using assms by (simp add: compact_def)
  have dr: "drop (off (compact self k)) (buf (compact self k)) = drop (off self) (buf self)"
    using assms by (simp add: compact_def)
  have m': "(if siz (compact self k) > 0
          then decode (enc (compact self k))
                 (take (nat (siz (compact self k)))
                    (drop (off (compact self k)) (buf (compact self k))))
          else Inr []) = m"
    unfolding dr m_def by (simp add: compact_def)
  have s1': "(compact self k)\<lparr>off := off (compact self k) + nat (siz (compact self k)),
                siz := - 1\<rparr> = compact s1 k"
    using assms by (simp add: compact_def s1_def)
  have a: "contents self c
        = (if int (length (buf self)) < int (off self) + siz self then (Inr Break, self, c)
           else case m of
               Inl e \<Rightarrow> (Inl e, self, c)
             | Inr msg \<Rightarrow>
                 (case pieces msg of
                    Inl e \<Rightarrow> (Inl e, s1, off s1)
                  | Inr job \<Rightarrow> (Inr Next, push_job s1 job, off s1)))"
    unfolding contents_def m_def s1_def Let_def by (rule refl)
  have b: "contents (compact self k) (c - k)
        = (if int (length (buf self)) < int (off self) + siz self
           then (Inr Break, compact self k, c - k)
           else case m of
               Inl e \<Rightarrow> (Inl e, compact self k, c - k)
             | Inr msg \<Rightarrow>
                 (case pieces msg of
                    Inl e \<Rightarrow> (Inl e, compact s1 k, off (compact s1 k))
                  | Inr job \<Rightarrow> (Inr Next, push_job (compact s1 k) job, off (compact s1 k))))"
    unfolding contents_def Let_def len m' s1' by (rule refl)
  have p: "push_job (compact s1 k) job = compact (push_job s1 job) k" for job
    by (simp add: push_job_def compact_def)
  have o: "off (compact s1 k) = off s1 - k" by (simp add: compact_def)
  show ?thesis
    unfolding a b by (simp add: p o split: sum.splits)
qed

lemma header_bounds:
  assumes "off self \<le> length (buf self)" and "header self = (r, s1)"
  shows "off self \<le> off s1 \<and> off s1 \<le> length (buf s1)"
  using assms(2)
proof (cases rule: header_cases)
  case (parsed i n)
  from scan_size_adv [OF parsed(6)] parsed(4)
  have "off self < i \<and> i \<le> length (buf self)" by auto
  with parsed show ?thesis by simp
qed (use assms(1) in simp_all)

lemma contents_bounds:
  assumes "c \<le> off self" and "off self \<le> length (buf self)"
    and "contents self c = (r, s1, c1)"
  shows "c \<le> c1 \<and> c1 \<le> off s1 \<and> off s1 \<le> length (buf s1)"
proof (cases "int (length (buf self)) < int (off self) + siz self")
  case True
  with assms show ?thesis by (simp add: contents_def)
next
  case False
  with assms(2) have "off self + nat (siz self) \<le> length (buf self)" by linarith
  with assms False show ?thesis
    by (auto simp: contents_def push_job_def Let_def split: sum.splits if_splits)
qed

lemma turn_bounds:
  assumes "c \<le> off self" and "off self \<le> length (buf self)"
    and "turn self c = (r, s1, c1)"
  shows "c \<le> c1 \<and> c1 \<le> off s1 \<and> off s1 \<le> length (buf s1)"
proof -
  obtain rh sh where h: "header self = (rh, sh)" by (cases "header self")
  note hb = header_bounds [OF assms(2) h]
  show ?thesis
  proof (cases rh)
    case (Inl e)
    with h assms hb show ?thesis by (auto simp: turn_def)
  next
    case (Inr f)
    show ?thesis
    proof (cases f)
      case Break
      with Inr h assms hb show ?thesis by (auto simp: turn_def)
    next
      case Next
      with Inr h assms(3) have c: "contents sh c = (r, s1, c1)" by (simp add: turn_def)
      from assms(1) hb have "c \<le> off sh" by simp
      from contents_bounds [OF this _ c] hb show ?thesis by simp
    qed
  qed
qed

lemma parse_bounds:
  "c \<le> off self \<Longrightarrow> off self \<le> length (buf self) \<Longrightarrow> parse self c = (r, s1, c1) \<Longrightarrow>
   c \<le> c1 \<and> c1 \<le> off s1 \<and> off s1 \<le> length (buf s1)"
proof (induction self c arbitrary: r s1 c1 rule: parse.induct)
  case (1 self consumed)
  obtain rt st ct where t: "turn self consumed = (rt, st, ct)" by (cases "turn self consumed")
  note tb = turn_bounds [OF "1.prems"(1,2) t]
  show ?case
  proof (cases rt)
    case (Inl e)
    with t "1.prems"(3) tb show ?thesis by (simp add: parse_raise)
  next
    case (Inr f)
    show ?thesis
    proof (cases f)
      case Break
      with Inr t "1.prems"(3) tb show ?thesis by (simp add: parse_stop)
    next
      case Next
      with Inr t "1.prems"(3) have p: "parse st ct = (r, s1, c1)" by (simp add: parse_next)
      from tb have a: "ct \<le> off st" and b: "off st \<le> length (buf st)" by simp_all
      from "1.IH" [OF t [symmetric] _ _ _ a b p] Inr Next tb show ?thesis by simp
    qed
  qed
qed

lemma turn_compact:
  assumes "k \<le> off self" and "off self \<le> length (buf self)"
  shows "turn (compact self k) (c - k)
         = (case turn self c of (r, s1, c1) \<Rightarrow> (r, compact s1 k, c1 - k))"
proof -
  obtain rh sh where h: "header self = (rh, sh)" by (cases "header self")
  from header_compact [OF assms] h
  have hc: "header (compact self k) = (rh, compact sh k)" by simp
  note hb = header_bounds [OF assms(2) h]
  show ?thesis
  proof (cases rh)
    case (Inl e)
    with h hc show ?thesis by (simp add: turn_def)
  next
    case (Inr f)
    show ?thesis
    proof (cases f)
      case Break
      with Inr h hc show ?thesis by (simp add: turn_def)
    next
      case Next
      from assms(1) hb have "k \<le> off sh" "off sh \<le> length (buf sh)" by simp_all
      then have "contents (compact sh k) (c - k)
         = (case contents sh c of (r, s1, c1) \<Rightarrow> (r, compact s1 k, c1 - k))"
        by (rule contents_compact)
      with Inr Next h hc show ?thesis by (simp add: turn_def)
    qed
  qed
qed

lemma parse_compact:
  "k \<le> c \<Longrightarrow> c \<le> off self \<Longrightarrow> off self \<le> length (buf self) \<Longrightarrow>
   parse (compact self k) (c - k)
   = (case parse self c of (r, s1, c1) \<Rightarrow> (r, compact s1 k, c1 - k))"
proof (induction self c rule: parse.induct)
  case (1 self consumed)
  obtain rt st ct where t: "turn self consumed = (rt, st, ct)" by (cases "turn self consumed")
  note tb = turn_bounds [OF "1.prems"(2,3) t]
  from "1.prems" have "k \<le> off self" by simp
  from turn_compact [OF this "1.prems"(3), of consumed] t
  have tc: "turn (compact self k) (consumed - k) = (rt, compact st k, ct - k)" by simp
  show ?case
  proof (cases rt)
    case (Inl e)
    with t tc show ?thesis by (simp add: parse_raise)
  next
    case (Inr f)
    show ?thesis
    proof (cases f)
      case Break
      with Inr t tc show ?thesis by (simp add: parse_stop)
    next
      case Next
      with Inr t have p: "parse self consumed = parse st ct" by (simp add: parse_next)
      from Inr Next tc
      have pc: "parse (compact self k) (consumed - k) = parse (compact st k) (ct - k)"
        by (simp add: parse_next)
      from tb "1.prems"(1) have a: "k \<le> ct" and b: "ct \<le> off st"
        and c: "off st \<le> length (buf st)" by simp_all
      from "1.IH" [OF t [symmetric] _ _ _ a b c] Inr Next p pc show ?thesis by simp
    qed
  qed
qed

subsection \<open>Bytes delivered in pieces\<close>

lemma compact_0: "compact self 0 = self"
  by (simp add: compact_def)

lemma compact_compact:
  "a \<le> b \<Longrightarrow> b \<le> off self \<Longrightarrow> compact (compact self a) (b - a) = compact self b"
  by (simp add: compact_def)

lemma append_buf_twice: "append_buf (append_buf self d) x = append_buf self (d @ x)"
  by (simp add: append_buf_def)

lemma append_buf_compact:
  "k \<le> length (buf self) \<Longrightarrow> append_buf (compact self k) x = compact (append_buf self x) k"
  by (simp add: append_buf_def compact_def)

lemma deliver_eq:
  assumes "io self = []"
  shows "deliver self d
         = (case parse (append_buf self d) 0 of
              (Inl e, s1, c1) \<Rightarrow> (Inl (AttributeError ''disconnect''), s1)
            | (Inr u, s1, c1) \<Rightarrow> (Inr (), compact s1 c1))"
proof -
  have "collect (self\<lparr>io := fs_send (io self) d\<rparr>) = append_buf self d"
    using assms by (cases self) (simp add: collect_eq fs_send_def append_buf_def)
  then show ?thesis
    by (auto simp: deliver_def receive_def attempt_def disconnect_def compact_def
        split: prod.splits sum.splits)
qed

lemma idle_steady: "idle self \<Longrightarrow> steady self"
  by (simp add: idle_def steady_def)

text \<open>The loop on the bytes \<open>d\<close>, then what a delivery of \<open>d\<close> and one of \<open>d @ x\<close> are.\<close>

lemma deliver_prefix:
  assumes "steady self" and "parse (append_buf self d) 0 = (Inr (), s1, c1)"
  shows "deliver self d = (Inr (), compact s1 c1)"
    and "steady (compact s1 c1)"
    and "deliver (compact s1 c1) x
         = (case parse (append_buf s1 x) c1 of
              (Inl e, s2, c2) \<Rightarrow> (Inl (AttributeError ''disconnect''), compact s2 c1)
            | (Inr u, s2, c2) \<Rightarrow> (Inr (), compact s2 c2))"
    and "deliver self (d @ x)
         = (case parse (append_buf s1 x) c1 of
              (Inl e, s2, c2) \<Rightarrow> (Inl (AttributeError ''disconnect''), s2)
            | (Inr u, s2, c2) \<Rightarrow> (Inr (), compact s2 c2))"
proof -
  have io: "io self = []" and ol: "off self \<le> length (buf self)"
    using assms(1) by (simp_all add: steady_def)
  from ol have ol': "off (append_buf self d) \<le> length (buf (append_buf self d))"
    by (simp add: append_buf_def)
  have "0 \<le> off (append_buf self d)" by simp
  from parse_bounds [OF this ol' assms(2)]
  have b: "c1 \<le> off s1" "off s1 \<le> length (buf s1)" by simp_all
  from parse_frame [OF assms(2)] io have io1: "io s1 = []" by (simp add: append_buf_def)
  show "deliver self d = (Inr (), compact s1 c1)"
    using deliver_eq [OF io, of d] assms(2) by simp
  show "steady (compact s1 c1)"
    using b io1 by (simp add: steady_def compact_def)
  obtain r2 s2 c2 where p2: "parse (append_buf s1 x) c1 = (r2, s2, c2)"
    by (cases "parse (append_buf s1 x) c1")
  have b': "c1 \<le> off (append_buf s1 x)" "off (append_buf s1 x) \<le> length (buf (append_buf s1 x))"
    using b by (simp_all add: append_buf_def)
  from parse_bounds [OF b' p2] have b2: "c1 \<le> c2" "c2 \<le> off s2" by simp_all
  have "c1 \<le> length (buf s1)" using b by simp
  then have "append_buf (compact s1 c1) x = compact (append_buf s1 x) c1" by (rule append_buf_compact)
  moreover have "parse (compact (append_buf s1 x) c1) (c1 - c1)
        = (case parse (append_buf s1 x) c1 of (r, s, c) \<Rightarrow> (r, compact s c1, c - c1))"
    using _ b' by (rule parse_compact) simp
  ultimately have "parse (append_buf (compact s1 c1) x) 0 = (r2, compact s2 c1, c2 - c1)"
    using p2 by simp
  moreover have "io (compact s1 c1) = []" using io1 by (simp add: compact_def)
  ultimately show "deliver (compact s1 c1) x
         = (case parse (append_buf s1 x) c1 of
              (Inl e, s2, c2) \<Rightarrow> (Inl (AttributeError ''disconnect''), compact s2 c1)
            | (Inr u, s2, c2) \<Rightarrow> (Inr (), compact s2 c2))"
    using p2 compact_compact [OF b2] by (cases r2) (simp_all add: deliver_eq)
  have "parse (append_buf self (d @ x)) 0 = parse (append_buf s1 x) c1"
    using parse_append [of "append_buf self d" x 0] assms(2) by (simp add: append_buf_twice)
  then show "deliver self (d @ x)
         = (case parse (append_buf s1 x) c1 of
              (Inl e, s2, c2) \<Rightarrow> (Inl (AttributeError ''disconnect''), s2)
            | (Inr u, s2, c2) \<Rightarrow> (Inr (), compact s2 c2))"
    by (simp add: deliver_eq [OF io])
qed

lemma deliver_prefix_ok:
  assumes "steady self" and "deliver self (d @ x) = (Inr (), u)"
  obtains t where "deliver self d = (Inr (), t)" and "steady t"
    and "deliver t x = (Inr (), u)"
proof -
  have io: "io self = []" using assms(1) by (simp add: steady_def)
  obtain r1 s1 c1 where p1: "parse (append_buf self d) 0 = (r1, s1, c1)"
    by (cases "parse (append_buf self d) 0")
  have ok: "r1 = Inr ()"
  proof (cases r1)
    case (Inl e)
    with parse_append [of "append_buf self d" x 0] p1
    have "parse (append_buf self (d @ x)) 0 = (Inl e, append_buf s1 x, c1)"
      by (simp add: append_buf_twice)
    with assms(2) show ?thesis by (simp add: deliver_eq [OF io])
  next
    case (Inr v)
    then show ?thesis by simp
  qed
  with p1 have p: "parse (append_buf self d) 0 = (Inr (), s1, c1)" by simp
  note f = deliver_prefix(1,2) [OF assms(1) p]
  note g = deliver_prefix(3,4) [OF assms(1) p, of x]
  from g assms(2) have "deliver (compact s1 c1) x = (Inr (), u)"
    by (auto split: prod.splits sum.splits)
  with f that show thesis by blast
qed

lemma feed_concat:
  "steady self \<Longrightarrow> chunks \<noteq> [] \<Longrightarrow> deliver self (concat chunks) = (Inr (), u) \<Longrightarrow>
   feed self chunks = (Inr (), u)"
proof (induction chunks arbitrary: self)
  case Nil
  then show ?case by simp
next
  case (Cons c cs)
  show ?case
  proof (cases "cs = []")
    case True
    with Cons.prems(3) show ?thesis by simp
  next
    case False
    from Cons.prems(3) have "deliver self (c @ concat cs) = (Inr (), u)" by simp
    with Cons.prems(1) obtain t where t: "deliver self c = (Inr (), t)" "steady t"
      "deliver t (concat cs) = (Inr (), u)"
      by (rule deliver_prefix_ok)
    from Cons.IH [OF t(2) False t(3)] t(1) show ?thesis by simp
  qed
qed

lemma frame_nonempty: "well_formed m \<Longrightarrow> frame m \<noteq> []"
  by (simp add: frame_eq)

lemma wire_eq_Nil:
  assumes "list_all well_formed ms" and "wire ms = []"
  shows "ms = []"
proof (cases ms)
  case Nil
  then show ?thesis .
next
  case (Cons m ms')
  with assms(1) have "well_formed m" by simp
  then have "frame m \<noteq> []" by (rule frame_nonempty)
  with assms(2) Cons show ?thesis by (simp add: wire_Cons)
qed

text \<open>
  Claim C2.  Bytes are delivered to a channel in chunks, one call of \<^verbatim>\<open>_receive\<close> for
  each chunk, the chunks being cut at any places (a chunk may be empty).  Whenever
  one call of \<^verbatim>\<open>_receive\<close> on all the bytes at once returns normally, the calls chunk
  by chunk all return normally and leave the channel in the very same state, so with
  the same jobs in the same order; this holds from any state between two calls, and
  for bytes that end inside a message.  In particular, from an idle channel with the
  default encoding and for the bytes of any list of messages, both ways of delivery
  append exactly these messages, in their order.
\<close>

theorem fragmentation_invariance:
  "(steady self \<and> chunks \<noteq> [] \<and> deliver self (concat chunks) = (Inr (), u)
      \<longrightarrow> feed self chunks = (Inr (), u))
   \<and> (idle self \<and> enc self = ENCODING \<and> list_all well_formed ms \<and> concat chunks = wire ms
      \<longrightarrow> feed self [wire ms] = (Inr (), self\<lparr>jobs := jobs self @ ms\<rparr>)
          \<and> feed self chunks = (Inr (), self\<lparr>jobs := jobs self @ ms\<rparr>))"
proof (intro conjI impI)
  assume "steady self \<and> chunks \<noteq> [] \<and> deliver self (concat chunks) = (Inr (), u)"
  then show "feed self chunks = (Inr (), u)" by (simp add: feed_concat)
next
  assume a: "idle self \<and> enc self = ENCODING \<and> list_all well_formed ms
             \<and> concat chunks = wire ms"
  then have d: "deliver self (wire ms) = (Inr (), self\<lparr>jobs := jobs self @ ms\<rparr>)"
    by (simp add: deliver_wire)
  then show "feed self [wire ms] = (Inr (), self\<lparr>jobs := jobs self @ ms\<rparr>)" by simp
  show "feed self chunks = (Inr (), self\<lparr>jobs := jobs self @ ms\<rparr>)"
  proof (cases "chunks = []")
    case True
    with a have "wire ms = []" by simp
    with a have "ms = []" by (simp add: wire_eq_Nil)
    with True show ?thesis by simp
  next
    case False
    from a have "steady self" by (simp add: idle_steady)
    moreover from a d have "deliver self (concat chunks) = (Inr (), self\<lparr>jobs := jobs self @ ms\<rparr>)"
      by simp
    ultimately show ?thesis using False by (simp add: feed_concat)
  qed
qed

theorem fragmentation_invariance_witness:
  "feed (init [] ENCODING) [''@8:EV'', ''T:1:hi@8'', [], '':CMD:2:g'', ''o'']
   = (Inr (), (init [] ENCODING)\<lparr>jobs :=
        [(str_of ''EVT'', 1, str_of ''hi''), (str_of ''CMD'', 2, str_of ''go'')]\<rparr>)
   \<and> feed (init [] ENCODING) [''@8:EVT:1:hi@8:CMD:2:go'']
   = (Inr (), (init [] ENCODING)\<lparr>jobs :=
        [(str_of ''EVT'', 1, str_of ''hi''), (str_of ''CMD'', 2, str_of ''go'')]\<rparr>)
   \<and> feed (init [] ENCODING) [''@8:EVT:1:hi@8:C'', ''MD'']
   = (Inr (), (init [] ENCODING)\<lparr>buf := ''@8:CMD'', off := 3, siz := 8,
        jobs := [(str_of ''EVT'', 1, str_of ''hi'')]\<rparr>)"
proof -
  let ?ms = "[(str_of ''EVT'', 1, str_of ''hi''), (str_of ''CMD'', 2, str_of ''go'')]"
  let ?c = "[''@8:EV'', ''T:1:hi@8'', [], '':CMD:2:g'', ''o'']"
  have w: "wire ?ms = ''@8:EVT:1:hi@8:CMD:2:go''"
    by (simp add: wire_Cons wire_Nil frame_evt frame_cmd del: frame.simps)
  have wf: "list_all well_formed ?ms"
    by (simp add: well_formed_str_of del: well_formed.simps)
  have e: "enc (init [] ENCODING) = ENCODING" by (simp add: init_def)
  have j: "jobs (init [] ENCODING) = []" by (simp add: init_def)
  have cc: "concat ?c = wire ?ms" by (simp add: w)
  from fragmentation_invariance [of "init [] ENCODING" ?c _ ?ms] idle_init [of ENCODING] e wf cc
  have a: "feed (init [] ENCODING) [wire ?ms] = (Inr (), (init [] ENCODING)\<lparr>jobs := ?ms\<rparr>)
           \<and> feed (init [] ENCODING) ?c = (Inr (), (init [] ENCODING)\<lparr>jobs := ?ms\<rparr>)"
    by (simp only: j append_Nil simp_thms)
  let ?m = "[(str_of ''EVT'', 1 :: int, str_of ''hi'')]"
  let ?u = "(init [] ENCODING)\<lparr>buf := ''@8:CMD'', off := 3, siz := 8, jobs := ?m\<rparr>"
  have w1: "wire ?m = ''@8:EVT:1:hi''"
    by (simp add: wire_Cons wire_Nil frame_evt del: frame.simps)
  have wf1: "list_all well_formed ?m"
    by (simp add: well_formed_str_of del: well_formed.simps)
  have p: "parse ((init [] ENCODING)\<lparr>buf := wire ?m @ ''@8:CMD''\<rparr>) 0
        = (Inr (), (init [] ENCODING)\<lparr>buf := wire ?m @ ''@8:CMD'', off := 14, siz := 8,
                      jobs := ?m\<rparr>, 11)"
    apply (subst parse_delivered [OF idle_init e wf1])
    apply (simp add: w1 j)
    apply (rule parse_stop)
    apply (simp add: turn_def header_def contents_def init_def)
    done
  from deliver_outcome [OF idle_init p]
  have "deliver (init [] ENCODING) (wire ?m @ ''@8:CMD'') = (Inr (), ?u)"
    by (simp add: w1 init_def)
  then have "deliver (init [] ENCODING) (concat [''@8:EVT:1:hi@8:C'', ''MD'']) = (Inr (), ?u)"
    by (simp add: w1)
  with fragmentation_invariance [of "init [] ENCODING" "[''@8:EVT:1:hi@8:C'', ''MD'']" ?u]
    idle_steady [OF idle_init, of ENCODING]
  have b: "feed (init [] ENCODING) [''@8:EVT:1:hi@8:C'', ''MD''] = (Inr (), ?u)"
    by (simp only: list.distinct simp_thms)
  from a b show ?thesis by (simp only: w simp_thms)
qed

end
